theory Spec2Isabelle
  imports Main "HOL-Library.Multiset"
begin

section \<open>The directive data model (directive.go, lines 12-101)\<close>

text \<open>
  Go strings are \<open>string\<close>, slices are lists, and a pointer that may be nil is an
  \<open>option\<close>. Two records of one theory cannot share a field name, so every field
  carries a short prefix naming its struct: \<open>r_\<close> Runnable, \<open>c_\<close> CallableFn,
  \<open>o_\<close> FnOnErr, \<open>fe_\<close> ForEach, \<open>e_\<close> Executable, \<open>i_\<close> Input, \<open>h_\<close> Handler,
  \<open>ev_\<close> ScheduleEvery, \<open>s_\<close> Schedule, \<open>d_\<close> Directive.

  A Go map that is only iterated (\<open>FnOnErr.Code\<close>, \<open>Schedule.State\<close>) is the list of
  its entries in the order in which the run enumerates them; Go leaves that order
  unspecified. The maps that are looked up (\<open>fns\<close>, \<open>fullState\<close>, \<open>fqfns\<close>) are HOL maps.
\<close>

definition InputTypeRequest :: string where
  "InputTypeRequest = ''request''"

definition NamespaceDefault :: string where
  "NamespaceDefault = ''default''"

text \<open>
  The struct Runnable is declared in another file of the package; directive.go reads
  its fields Name and Namespace only.
\<close>

record Runnable =
  r_Name :: string
  r_Namespace :: string

record Alias =
  a_Key :: string
  a_Alias :: string

record FnOnErr =
  o_Code :: "(int \<times> string) list"
  o_Any :: string
  o_Other :: string

record CallableFn =
  c_Fn :: string
  c_As :: string
  c_With :: "string list"
  c_OnErr :: "FnOnErr option"
  c_DesiredState :: "Alias list"

record ForEach =
  fe_In :: string
  fe_Fn :: CallableFn
  fe_As :: string

text \<open>
  Executable embeds a CallableFn; \<open>e_Group = None\<close> is the nil slice, which the
  classifiers tell apart from an empty one.
\<close>

record Executable =
  e_CallableFn :: CallableFn
  e_Group :: "CallableFn list option"
  e_ForEach :: "ForEach option"

record Input =
  i_Type :: string
  i_Method :: string
  i_Resource :: string

record Handler =
  h_Input :: Input
  h_Steps :: "Executable list"
  h_Response :: string

record ScheduleEvery =
  ev_Seconds :: int
  ev_Minutes :: int
  ev_Hours :: int
  ev_Days :: int

record Schedule =
  s_Name :: string
  s_Every :: ScheduleEvery
  s_State :: "(string \<times> string) list"
  s_Steps :: "Executable list"

record Directive =
  d_Identifier :: string
  d_AppVersion :: string
  d_AtmoVersion :: string
  d_Runnables :: "Runnable list"
  d_Handlers :: "Handler list"
  d_Schedules :: "Schedule list"
  d_fqfns :: "(string \<rightharpoonup> string) option"

datatype executableType = executableTypeHandler | executableTypeSchedule

section \<open>Errors as values\<close>

text \<open>The error of ParseWith carries the number of parts that the split gave.\<close>

datatype parse_error = WrongFormat nat

text \<open>
  One constructor for each \<open>problems.add\<close> of the source, holding the arguments of
  its format string in their order; \<open>Error\<close> below renders the message.
\<close>

datatype problem =
    IdentifierMissing
  | AppVersionInvalid
  | AtmoVersionInvalid
  | NoFunctions
  | DuplicateFn string
  | FnMissingName nat
  | FnMissingNamespace nat
  | HandlerMissingType string
  | HandlerMissingResource string
  | HandlerMissingMethod string
  | HandlerMissingSteps string
  | HandlerGroupNoResponse string
  | HandlerResponseMissing string string
  | ScheduleNoName nat
  | ScheduleMissingSteps string
  | ScheduleNoEvery string
  | StepNotExecutable nat executableType string
  | FnNotExist executableType string nat string
  | InvalidWith executableType string nat parse_error
  | WithKeyNotAvailable executableType string nat string
  | OnErrAnyWithCodes executableType string nat
  | OnErrAnyInvalid executableType string nat string
  | OnErrOtherWithoutCodes executableType string nat
  | OnErrOtherInvalid executableType string nat string
  | OnErrCodeInvalid executableType string nat int string
  | ForEachMissingAs nat executableType string
  | ForEachFnAsOrWith nat executableType string

type_synonym problems = "problem list"

section \<open>Formatting (fmt.Sprintf with %s and %d)\<close>

fun fmt_nat :: "nat \<Rightarrow> string" where
  "fmt_nat n = (if n < 10 then [''0123456789'' ! n]
                else fmt_nat (n div 10) @ [''0123456789'' ! (n mod 10)])"

declare fmt_nat.simps [simp del]

definition fmt_int :: "int \<Rightarrow> string" where
  "fmt_int i = (if i < 0 then ''-'' @ fmt_nat (nat (- i)) else fmt_nat (nat i))"

definition fmt_exType :: "executableType \<Rightarrow> string" where
  "fmt_exType t = (case t of executableTypeHandler \<Rightarrow> ''handler''
                           | executableTypeSchedule \<Rightarrow> ''schedule'')"

definition parse_error_text :: "parse_error \<Rightarrow> string" where
  "parse_error_text e = (case e of WrongFormat n \<Rightarrow>
     ''with value has wrong format: parsed '' @ fmt_nat n @
     '' parts seperated by : , expected 2'')"

fun Error :: "problem \<Rightarrow> string" where
  "Error IdentifierMissing = ''identifier is missing''"
| "Error AppVersionInvalid = ''app version is not a valid semantic version''"
| "Error AtmoVersionInvalid = ''atmo version is not a valid semantic version''"
| "Error NoFunctions = ''no functions listed''"
| "Error (DuplicateFn n) = ''duplicate fn '' @ n @ '' found''"
| "Error (FnMissingName i) = ''function at position '' @ fmt_nat i @ '' missing name''"
| "Error (FnMissingNamespace i) =
     ''function at position '' @ fmt_nat i @ '' missing namespace''"
| "Error (HandlerMissingType r) = ''handler for resource '' @ r @ '' missing type''"
| "Error (HandlerMissingResource r) = ''handler for resource '' @ r @ '' missing resource''"
| "Error (HandlerMissingMethod r) =
     ''handler for resource '' @ r @ '' is of type request, but does not specify a method''"
| "Error (HandlerMissingSteps r) = ''handler for resource '' @ r @ '' missing steps''"
| "Error (HandlerGroupNoResponse n) =
     ''handler for '' @ n @ '' has group as last step but does not include 'response' field''"
| "Error (HandlerResponseMissing n r) =
     ''handler for '' @ n @ '' lists response state key that does not exist: '' @ r"
| "Error (ScheduleNoName i) = ''schedule at position '' @ fmt_nat i @ '' has no name''"
| "Error (ScheduleMissingSteps n) = ''schedule '' @ n @ '' missing steps''"
| "Error (ScheduleNoEvery n) = ''schedule '' @ n @ '' has no 'every' values''"
| "Error (StepNotExecutable j t n) =
     ''step at position '' @ fmt_nat j @ '' for '' @ fmt_exType t @ '' '' @ n @
     '' isn't an Fn, Group, or ForEach''"
| "Error (FnNotExist t n j f) =
     fmt_exType t @ '' for '' @ n @ '' lists fn at step '' @ fmt_nat j @
     '' that does not exist: '' @ f @ '' (did you forget a namespace?)''"
| "Error (InvalidWith t n j e) =
     fmt_exType t @ '' for '' @ n @ '' has invalid 'with' value at step '' @ fmt_nat j @
     '': '' @ parse_error_text e"
| "Error (WithKeyNotAvailable t n j k) =
     fmt_exType t @ '' for '' @ n @ '' has 'with' value at step '' @ fmt_nat j @
     '' referencing a key that is not yet available in the handler's state: '' @ k"
| "Error (OnErrAnyWithCodes t n j) =
     fmt_exType t @ '' for '' @ n @ '' has 'onErr.any' value at step '' @ fmt_nat j @
     '' while specific codes are specified, use 'other' instead''"
| "Error (OnErrAnyInvalid t n j v) =
     fmt_exType t @ '' for '' @ n @ '' has 'onErr.any' value at step '' @ fmt_nat j @
     '' with an invalid error directive: '' @ v"
| "Error (OnErrOtherWithoutCodes t n j) =
     fmt_exType t @ '' for '' @ n @ '' has 'onErr.other' value at step '' @ fmt_nat j @
     '' while specific codes are not specified, use 'any' instead''"
| "Error (OnErrOtherInvalid t n j v) =
     fmt_exType t @ '' for '' @ n @ '' has 'onErr.any' value at step '' @ fmt_nat j @
     '' with an invalid error directive: '' @ v"
| "Error (OnErrCodeInvalid t n j c v) =
     fmt_exType t @ '' for '' @ n @ '' has 'onErr.code' value at step '' @ fmt_nat j @
     '' with an invalid error directive for code '' @ fmt_int c @ '': '' @ v"
| "Error (ForEachMissingAs j t n) =
     ''ForEach at position '' @ fmt_nat j @ '' for '' @ fmt_exType t @ '' '' @ n @
     '' is missing 'as' value''"
| "Error (ForEachFnAsOrWith j t n) =
     ''ForEach at position '' @ fmt_nat j @ '' for '' @ fmt_exType t @ '' '' @ n @
     '' should not have 'fn.as' or 'fn.with' ''"

section \<open>The problem collector (lines 400-418)\<close>

definition add :: "problem \<Rightarrow> problems \<Rightarrow> problems" where
  "add err p = p @ [err]"

text \<open>\<open>None\<close> is the nil error; \<open>Some text\<close> is \<open>errors.New(text)\<close>.\<close>

definition render :: "problems \<Rightarrow> string option" where
  "render p =
     (if length p = 0 then None
      else Some (fold (\<lambda>err text. text @ [CHR 0x0A, CHR 0x09] @ Error err) p
                   (''found '' @ fmt_nat (length p) @ '' problems:'')))"

section \<open>Classifying an Executable (lines 365-378)\<close>

definition IsGroup :: "Executable \<Rightarrow> bool" where
  "IsGroup e = (c_Fn (e_CallableFn e) = [] \<and>
     (case e_Group e of None \<Rightarrow> False | Some g \<Rightarrow> length g > 0) \<and> e_ForEach e = None)"

definition IsFn :: "Executable \<Rightarrow> bool" where
  "IsFn e = (c_Fn (e_CallableFn e) \<noteq> [] \<and> e_Group e = None \<and> e_ForEach e = None)"

definition IsForEach :: "Executable \<Rightarrow> bool" where
  "IsForEach e = (e_ForEach e \<noteq> None \<and> c_Fn (e_CallableFn e) = [] \<and> e_Group e = None)"

section \<open>ParseWith (lines 380-398)\<close>

text \<open>
  \<open>strings.Split\<close> for a non-empty separator, as at its one call site: the pieces
  between the non-overlapping occurrences of \<open>sep\<close>, found from the left. \<open>acc\<close> is
  the piece read so far.
\<close>

function Split_from :: "string \<Rightarrow> string \<Rightarrow> string \<Rightarrow> string list" where
  "Split_from sep acc [] = [acc]"
| "Split_from sep acc (c # cs) =
     (if sep \<noteq> [] \<and> take (length sep) (c # cs) = sep
      then acc # Split_from sep [] (drop (length sep) (c # cs))
      else Split_from sep (acc @ [c]) cs)"
  by pat_completeness auto
termination
  by (relation "measure (\<lambda>(sep, acc, s). length s)") auto

definition Split :: "string \<Rightarrow> string \<Rightarrow> string list" where
  "Split s sep = Split_from sep [] s"

definition zeroAlias :: Alias where
  "zeroAlias = \<lparr>a_Key = [], a_Alias = []\<rparr>"

text \<open>
  The loop of ParseWith over \<open>c.With\<close> from index \<open>i\<close>; \<open>ds\<close> is \<open>c.DesiredState\<close>, which
  the loop writes by index. It stops at the first entry that does not split in two.
\<close>

fun parseLoop :: "string list \<Rightarrow> nat \<Rightarrow> Alias list \<Rightarrow> Alias list \<times> parse_error option" where
  "parseLoop [] i ds = (ds, None)"
| "parseLoop (w # ws) i ds =
     (let parts = Split w '': '' in
      if length parts \<noteq> 2 then (ds, Some (WrongFormat (length parts)))
      else parseLoop ws (Suc i) (ds[i := \<lparr>a_Key = parts ! 1, a_Alias = parts ! 0\<rparr>]))"

text \<open>
  ParseWith has a pointer receiver: the first component is the receiver after the
  call. On an error the source returns \<open>nil, err\<close> and leaves in \<open>c.DesiredState\<close> the
  slice it had made, filled up to the failing entry and zero from there on.
\<close>

definition ParseWith :: "CallableFn \<Rightarrow> CallableFn \<times> (parse_error + Alias list)" where
  "ParseWith c =
     (if length (c_DesiredState c) > 0 then (c, Inr (c_DesiredState c))
      else (case parseLoop (c_With c) 0 (replicate (length (c_With c)) zeroAlias) of
              (ds, Some e) \<Rightarrow> (c\<lparr>c_DesiredState := ds\<rparr>, Inl e)
            | (ds, None) \<Rightarrow> (c\<lparr>c_DesiredState := ds\<rparr>, Inr ds)))"

section \<open>validateSteps (lines 245-333)\<close>

text \<open>The loop over \<open>fn.DesiredState\<close> (lines 265-269).\<close>

fun checkDesiredState ::
  "executableType \<Rightarrow> string \<Rightarrow> nat \<Rightarrow> (string \<rightharpoonup> bool) \<Rightarrow> Alias list \<Rightarrow> problems \<Rightarrow> problems" where
  "checkDesiredState exType name j fullState [] p = p"
| "checkDesiredState exType name j fullState (d # ds) p =
     checkDesiredState exType name j fullState ds
       (if fullState (a_Key d) = None
        then add (WithKeyNotAvailable exType name j (a_Key d)) p else p)"

text \<open>The loop over \<open>fn.OnErr.Code\<close> (lines 290-294).\<close>

fun checkCodes ::
  "executableType \<Rightarrow> string \<Rightarrow> nat \<Rightarrow> (int \<times> string) list \<Rightarrow> problems \<Rightarrow> problems" where
  "checkCodes exType name j [] p = p"
| "checkCodes exType name j ((code, val) # cs) p =
     checkCodes exType name j cs
       (if val \<noteq> ''return'' \<and> val \<noteq> ''continue''
        then add (OnErrCodeInvalid exType name j code val) p else p)"

text \<open>The block under \<open>fn.OnErr != nil\<close> (lines 271-295).\<close>

definition checkOnErr ::
  "executableType \<Rightarrow> string \<Rightarrow> nat \<Rightarrow> FnOnErr \<Rightarrow> problems \<Rightarrow> problems" where
  "checkOnErr exType name j oe p =
     (let p1 = (if length (o_Code oe) > 0 \<and> o_Any oe \<noteq> []
                then add (OnErrAnyWithCodes exType name j) p
                else if o_Any oe \<noteq> []
                then (if o_Any oe \<noteq> ''continue'' \<and> o_Any oe \<noteq> ''return''
                      then add (OnErrAnyInvalid exType name j (o_Any oe)) p else p)
                else p);
          p2 = (if length (o_Code oe) = 0 \<and> o_Other oe \<noteq> []
                then add (OnErrOtherWithoutCodes exType name j) p1
                else if o_Other oe \<noteq> []
                then (if o_Other oe \<noteq> ''continue'' \<and> o_Other oe \<noteq> ''return''
                      then add (OnErrOtherInvalid exType name j (o_Other oe)) p1 else p1)
                else p1)
      in checkCodes exType name j (o_Code oe) p2)"

text \<open>
  The closure validateFn. It captures \<open>exType\<close>, \<open>name\<close>, \<open>j\<close>, \<open>fns\<close> and \<open>fullState\<close>,
  and updates \<open>fnsToAdd\<close> and the collector. Its parameter is passed by value, so
  the ParseWith receiver is this local copy, \<open>fn'\<close> after the call, whose
  \<open>DesiredState\<close> the next loop reads; the value ParseWith returns is dropped.
\<close>

definition validateFn ::
  "executableType \<Rightarrow> string \<Rightarrow> nat \<Rightarrow> (string \<rightharpoonup> bool) \<Rightarrow> (string \<rightharpoonup> bool) \<Rightarrow> CallableFn \<Rightarrow>
   string list \<times> problems \<Rightarrow> string list \<times> problems" where
  "validateFn exType name j fns fullState fn st =
     (let fnsToAdd = fst st; p = snd st;
          p1 = (if fns (c_Fn fn) = None then add (FnNotExist exType name j (c_Fn fn)) p else p);
          fn' = fst (ParseWith fn);
          p2 = (case snd (ParseWith fn) of
                  Inl err \<Rightarrow> add (InvalidWith exType name j err) p1
                | Inr _ \<Rightarrow> p1);
          p3 = checkDesiredState exType name j fullState (c_DesiredState fn') p2;
          p4 = (case c_OnErr fn' of None \<Rightarrow> p3 | Some oe \<Rightarrow> checkOnErr exType name j oe p3);
          key = (if c_As fn' \<noteq> [] then c_As fn' else c_Fn fn')
      in (fnsToAdd @ [key], p4))"

text \<open>The loop over the members of a group (lines 308-310).\<close>

fun validateGroup ::
  "executableType \<Rightarrow> string \<Rightarrow> nat \<Rightarrow> (string \<rightharpoonup> bool) \<Rightarrow> (string \<rightharpoonup> bool) \<Rightarrow> CallableFn list \<Rightarrow>
   string list \<times> problems \<Rightarrow> string list \<times> problems" where
  "validateGroup exType name j fns fullState [] st = st"
| "validateGroup exType name j fns fullState (gfn # gs) st =
     validateGroup exType name j fns fullState gs (validateFn exType name j fns fullState gfn st)"

text \<open>The final loop of a step: every key of \<open>fnsToAdd\<close> enters \<open>fullState\<close>.\<close>

fun addKeys :: "string list \<Rightarrow> (string \<rightharpoonup> bool) \<Rightarrow> (string \<rightharpoonup> bool)" where
  "addKeys [] fullState = fullState"
| "addKeys (newFn # ks) fullState = addKeys ks (fullState(newFn \<mapsto> True))"

text \<open>
  The body of the loop over the steps, for the step \<open>s\<close> at index \<open>j\<close>: the state
  and the collector before, and after. In a group, \<open>the (e_Group s)\<close> is read under
  \<open>IsGroup s\<close> and in a for-each \<open>the (e_ForEach s)\<close> under \<open>IsForEach s\<close>, where both
  are present.
\<close>

definition validateStep ::
  "executableType \<Rightarrow> string \<Rightarrow> nat \<Rightarrow> (string \<rightharpoonup> bool) \<Rightarrow> Executable \<Rightarrow>
   (string \<rightharpoonup> bool) \<times> problems \<Rightarrow> (string \<rightharpoonup> bool) \<times> problems" where
  "validateStep exType name j fns s st =
     (let fullState = fst st; p = snd st;
          p1 = (if \<not> IsFn s \<and> \<not> IsGroup s \<and> \<not> IsForEach s
                then add (StepNotExecutable j exType name) p else p);
          r = (if IsFn s then validateFn exType name j fns fullState (e_CallableFn s) ([], p1)
               else if IsGroup s
               then validateGroup exType name j fns fullState (the (e_Group s)) ([], p1)
               else if IsForEach s
               then (let fe = the (e_ForEach s);
                         q1 = (if fe_As fe = [] then add (ForEachMissingAs j exType name) p1
                               else p1);
                         q2 = (if c_As (fe_Fn fe) \<noteq> [] \<or> length (c_With (fe_Fn fe)) > 0
                               then add (ForEachFnAsOrWith j exType name) q1 else q1);
                         v = validateFn exType name j fns fullState (fe_Fn fe) ([], q2)
                     in ((fst v)[length (fst v) - 1 := fe_As fe], snd v))
               else ([], p1))
      in (addKeys (fst r) fullState, snd r))"

fun validateStepsFrom ::
  "executableType \<Rightarrow> string \<Rightarrow> nat \<Rightarrow> (string \<rightharpoonup> bool) \<Rightarrow> Executable list \<Rightarrow>
   (string \<rightharpoonup> bool) \<times> problems \<Rightarrow> (string \<rightharpoonup> bool) \<times> problems" where
  "validateStepsFrom exType name j fns [] st = st"
| "validateStepsFrom exType name j fns (s # ss) st =
     validateStepsFrom exType name (Suc j) fns ss (validateStep exType name j fns s st)"

text \<open>
  validateSteps returns \<open>fullState\<close>, which is the map \<open>initialState\<close> itself, updated
  in place; the collector after the call is the second component.
\<close>

definition validateSteps ::
  "executableType \<Rightarrow> string \<Rightarrow> Executable list \<Rightarrow> (string \<rightharpoonup> bool) \<Rightarrow> (string \<rightharpoonup> bool) \<Rightarrow>
   problems \<Rightarrow> (string \<rightharpoonup> bool) \<times> problems" where
  "validateSteps exType name steps initialState fns p =
     validateStepsFrom exType name 0 fns steps (initialState, p)"

section \<open>Validate (lines 128-236)\<close>

definition namespacedName :: "Runnable \<Rightarrow> string" where
  "namespacedName f = r_Namespace f @ ''#'' @ r_Name f"

text \<open>The body of the loop over the runnables, for \<open>f\<close> at index \<open>i\<close>.\<close>

definition validateRunnable ::
  "nat \<Rightarrow> Runnable \<Rightarrow> (string \<rightharpoonup> bool) \<times> problems \<Rightarrow> (string \<rightharpoonup> bool) \<times> problems" where
  "validateRunnable i f st =
     (let fns = fst st; p = snd st; namespaced = namespacedName f in
      if fns namespaced \<noteq> None then (fns, add (DuplicateFn namespaced) p)
      else if fns (r_Name f) \<noteq> None then (fns, add (DuplicateFn namespaced) p)
      else if r_Name f = [] then (fns, add (FnMissingName i) p)
      else (let p1 = (if r_Namespace f = [] then add (FnMissingNamespace i) p else p)
            in if r_Namespace f = NamespaceDefault
               then (fns(r_Name f \<mapsto> True, namespaced \<mapsto> True), p1)
               else (fns(namespaced \<mapsto> True), p1)))"

fun validateRunnables ::
  "nat \<Rightarrow> Runnable list \<Rightarrow> (string \<rightharpoonup> bool) \<times> problems \<Rightarrow> (string \<rightharpoonup> bool) \<times> problems" where
  "validateRunnables i [] st = st"
| "validateRunnables i (f # fs) st = validateRunnables (Suc i) fs (validateRunnable i f st)"

text \<open>The body of the loop over the handlers.\<close>

definition validateHandler :: "(string \<rightharpoonup> bool) \<Rightarrow> Handler \<Rightarrow> problems \<Rightarrow> problems" where
  "validateHandler fns h p =
     (let inp = h_Input h;
          p1 = (if i_Type inp = [] then add (HandlerMissingType (i_Resource inp)) p else p);
          p2 = (if i_Resource inp = [] then add (HandlerMissingResource (i_Resource inp)) p1
                else p1);
          p3 = (if i_Type inp = InputTypeRequest \<and> i_Method inp = []
                then add (HandlerMissingMethod (i_Resource inp)) p2 else p2)
      in if length (h_Steps h) = 0 then add (HandlerMissingSteps (i_Resource inp)) p3
         else (let name = i_Method inp @ '' '' @ i_Resource inp;
                   r = validateSteps executableTypeHandler name (h_Steps h) Map.empty fns p3;
                   fullState = fst r; p4 = snd r;
                   lastStep = last (h_Steps h)
               in if h_Response h = [] \<and> IsGroup lastStep
                  then add (HandlerGroupNoResponse name) p4
                  else if h_Response h \<noteq> []
                  then (if fullState (h_Response h) = None
                        then add (HandlerResponseMissing name (h_Response h)) p4 else p4)
                  else p4))"

fun validateHandlers :: "(string \<rightharpoonup> bool) \<Rightarrow> Handler list \<Rightarrow> problems \<Rightarrow> problems" where
  "validateHandlers fns [] p = p"
| "validateHandlers fns (h # hs) p = validateHandlers fns hs (validateHandler fns h p)"

text \<open>The loop that primes the state of a schedule with the keys of \<open>s.State\<close>.\<close>

fun primeState :: "(string \<times> string) list \<Rightarrow> (string \<rightharpoonup> bool) \<Rightarrow> (string \<rightharpoonup> bool)" where
  "primeState [] initialState = initialState"
| "primeState ((k, v) # kvs) initialState = primeState kvs (initialState(k \<mapsto> True))"

text \<open>The body of the loop over the schedules, for \<open>s\<close> at index \<open>i\<close>.\<close>

definition validateSchedule ::
  "(string \<rightharpoonup> bool) \<Rightarrow> nat \<Rightarrow> Schedule \<Rightarrow> problems \<Rightarrow> problems" where
  "validateSchedule fns i s p =
     (if s_Name s = [] then add (ScheduleNoName i) p
      else if length (s_Steps s) = 0 then add (ScheduleMissingSteps (s_Name s)) p
      else (let ev = s_Every s;
                p1 = (if ev_Seconds ev = 0 \<and> ev_Minutes ev = 0 \<and> ev_Hours ev = 0 \<and>
                         ev_Days ev = 0
                      then add (ScheduleNoEvery (s_Name s)) p else p);
                initialState = primeState (s_State s) Map.empty
            in snd (validateSteps executableTypeSchedule (s_Name s) (s_Steps s)
                      initialState fns p1)))"

fun validateSchedules ::
  "(string \<rightharpoonup> bool) \<Rightarrow> nat \<Rightarrow> Schedule list \<Rightarrow> problems \<Rightarrow> problems" where
  "validateSchedules fns i [] p = p"
| "validateSchedules fns i (s # ss) p =
     validateSchedules fns (Suc i) ss (validateSchedule fns i s p)"

text \<open>The checks of the head of the document (lines 132-146).\<close>

definition validateHeader :: "(string \<Rightarrow> bool) \<Rightarrow> Directive \<Rightarrow> problems \<Rightarrow> problems" where
  "validateHeader IsValid d p =
     (let p1 = (if d_Identifier d = [] then add IdentifierMissing p else p);
          p2 = (if \<not> IsValid (d_AppVersion d) then add AppVersionInvalid p1 else p1);
          p3 = (if \<not> IsValid (d_AtmoVersion d) then add AtmoVersionInvalid p2 else p2)
      in if length (d_Runnables d) < 1 then add NoFunctions p3 else p3)"

text \<open>
  The collector at the end of Validate. \<open>IsValid\<close> stands for \<open>semver.IsValid\<close> of
  golang.org/x/mod, a parameter here.
\<close>

definition collect :: "(string \<Rightarrow> bool) \<Rightarrow> Directive \<Rightarrow> problems" where
  "collect IsValid d =
     (let p0 = validateHeader IsValid d [];
          r = validateRunnables 0 (d_Runnables d) (Map.empty, p0);
          fns = fst r;
          p1 = validateHandlers fns (d_Handlers d) (snd r)
      in validateSchedules fns 0 (d_Schedules d) p1)"

text \<open>
  Validate has a pointer receiver: the first component is the Directive after the
  call, the second the error returned. No statement of Validate assigns through
  \<open>d\<close>: the range loops copy each element, validateFn takes its CallableFn by value,
  and the maps it writes are made in Validate itself.
\<close>

definition Validate :: "(string \<Rightarrow> bool) \<Rightarrow> Directive \<Rightarrow> Directive \<times> string option" where
  "Validate IsValid d = (d, render (collect IsValid d))"

section \<open>FQFN (lines 114-126 and 335-353)\<close>

definition fqfnForFunc :: "Directive \<Rightarrow> string \<Rightarrow> string \<Rightarrow> string" where
  "fqfnForFunc d namespace fn = namespace @ ''#'' @ fn @ ''@'' @ d_AppVersion d"

fun fqfnLoop :: "Directive \<Rightarrow> Runnable list \<Rightarrow> (string \<rightharpoonup> string) \<Rightarrow> (string \<rightharpoonup> string)" where
  "fqfnLoop d [] m = m"
| "fqfnLoop d (fn # fs) m =
     fqfnLoop d fs
       (if r_Namespace fn = NamespaceDefault
        then m(r_Name fn \<mapsto> fqfnForFunc d (r_Namespace fn) (r_Name fn),
               namespacedName fn \<mapsto> fqfnForFunc d (r_Namespace fn) (r_Name fn))
        else m(namespacedName fn \<mapsto> fqfnForFunc d (r_Namespace fn) (r_Name fn)))"

definition calculateFQFNs :: "Directive \<Rightarrow> Directive" where
  "calculateFQFNs d = d\<lparr>d_fqfns := Some (fqfnLoop d (d_Runnables d) Map.empty)\<rparr>"

text \<open>
  FQFN returns the Directive after the call (the cache may have been filled) and
  either the error text (\<open>Inl\<close>) or the name found.
\<close>

definition FQFN :: "Directive \<Rightarrow> string \<Rightarrow> Directive \<times> (string + string)" where
  "FQFN d fn =
     (let d' = (if d_fqfns d = None then calculateFQFNs d else d) in
      case the (d_fqfns d') fn of
        None \<Rightarrow> (d', Inl (''fn '' @ fn @ '' does not exist''))
      | Some fqfn \<Rightarrow> (d', Inr fqfn))"

section \<open>NumberOfSeconds (lines 355-363)\<close>

text \<open>Go's \<open>int\<close> on a 64-bit platform: every sum and product wraps to 64 bits.\<close>

definition wrap64 :: "int \<Rightarrow> int" where
  "wrap64 x = (x + 2 ^ 63) mod 2 ^ 64 - 2 ^ 63"

definition NumberOfSeconds :: "Schedule \<Rightarrow> int" where
  "NumberOfSeconds s =
     (let seconds = ev_Seconds (s_Every s);
          minutes = wrap64 (60 * ev_Minutes (s_Every s));
          hours = wrap64 (wrap64 (60 * 60) * ev_Hours (s_Every s));
          days = wrap64 (wrap64 (wrap64 (60 * 60) * 24) * ev_Days (s_Every s))
      in wrap64 (wrap64 (wrap64 (seconds + minutes) + hours) + days))"

section \<open>Derived notions used in the statements\<close>

text \<open>
  What one call, and one step, contribute: the key a call produces, and the problems
  that the source's own functions append when started on an empty collector.
\<close>

definition fnKey :: "CallableFn \<Rightarrow> string" where
  "fnKey fn = (if c_As fn \<noteq> [] then c_As fn else c_Fn fn)"

definition fnProblems ::
  "executableType \<Rightarrow> string \<Rightarrow> nat \<Rightarrow> (string \<rightharpoonup> bool) \<Rightarrow> (string \<rightharpoonup> bool) \<Rightarrow> CallableFn \<Rightarrow> problems" where
  "fnProblems exType name j fns fullState fn = snd (validateFn exType name j fns fullState fn ([], []))"

definition stepKeys :: "Executable \<Rightarrow> string list" where
  "stepKeys s = (if IsFn s then [fnKey (e_CallableFn s)]
     else if IsGroup s then map fnKey (the (e_Group s))
     else if IsForEach s then [fe_As (the (e_ForEach s))] else [])"

definition stepProblems ::
  "executableType \<Rightarrow> string \<Rightarrow> nat \<Rightarrow> (string \<rightharpoonup> bool) \<Rightarrow> (string \<rightharpoonup> bool) \<Rightarrow> Executable \<Rightarrow> problems" where
  "stepProblems exType name j fns fullState s = snd (validateStep exType name j fns s (fullState, []))"

definition stateAt :: "Executable list \<Rightarrow> (string \<rightharpoonup> bool) \<Rightarrow> nat \<Rightarrow> (string \<rightharpoonup> bool)" where
  "stateAt steps fs i = addKeys (concat (map stepKeys (take i steps))) fs"

text \<open>Ways to write a step of each shape, and a call with nothing but its name.\<close>

definition plainFn :: "string \<Rightarrow> CallableFn" where
  "plainFn f = \<lparr>c_Fn = f, c_As = [], c_With = [], c_OnErr = None, c_DesiredState = []\<rparr>"

definition fnStep :: "CallableFn \<Rightarrow> Executable" where
  "fnStep c = \<lparr>e_CallableFn = c, e_Group = None, e_ForEach = None\<rparr>"


definition groupStep :: "CallableFn list \<Rightarrow> Executable" where
  "groupStep g = \<lparr>e_CallableFn = plainFn [], e_Group = Some g, e_ForEach = None\<rparr>"

text \<open>What the loops of Validate contribute when started on an empty collector.\<close>

definition headerProblems :: "(string \<Rightarrow> bool) \<Rightarrow> Directive \<Rightarrow> problems" where
  "headerProblems IsValid d = validateHeader IsValid d []"

definition runnableProblems :: "Directive \<Rightarrow> problems" where
  "runnableProblems d = snd (validateRunnables 0 (d_Runnables d) (Map.empty, []))"

definition knownFns :: "Directive \<Rightarrow> (string \<rightharpoonup> bool)" where
  "knownFns d = fst (validateRunnables 0 (d_Runnables d) (Map.empty, []))"

definition handlerProblems :: "(string \<rightharpoonup> bool) \<Rightarrow> Handler \<Rightarrow> problems" where
  "handlerProblems fns h = validateHandler fns h []"

definition scheduleProblems :: "(string \<rightharpoonup> bool) \<Rightarrow> nat \<Rightarrow> Schedule \<Rightarrow> problems" where
  "scheduleProblems fns i s = validateSchedule fns i s []"

text \<open>All four fields of \<open>every\<close> are zero: the test of lines 222-224.\<close>

definition everyAllZero :: "Schedule \<Rightarrow> bool" where
  "everyAllZero s = (ev_Seconds (s_Every s) = 0 \<and> ev_Minutes (s_Every s) = 0 \<and>
                     ev_Hours (s_Every s) = 0 \<and> ev_Days (s_Every s) = 0)"

text \<open>A document with one default-namespace function and one request handler of the given steps.\<close>

definition demoHandlerDoc :: "Executable list \<Rightarrow> string \<Rightarrow> Directive" where
  "demoHandlerDoc steps response =
     \<lparr>d_Identifier = ''demo'', d_AppVersion = ''v0.1.0'', d_AtmoVersion = ''v0.2.0'',
      d_Runnables = [\<lparr>r_Name = ''fetch'', r_Namespace = ''default''\<rparr>],
      d_Handlers = [\<lparr>h_Input = \<lparr>i_Type = ''request'', i_Method = ''GET'', i_Resource = ''/x''\<rparr>,
                      h_Steps = steps, h_Response = response\<rparr>],
      d_Schedules = [], d_fqfns = None\<rparr>"

text \<open>A document with one default-namespace function and the given schedules.\<close>

definition demoScheduleDoc :: "Schedule list \<Rightarrow> Directive" where
  "demoScheduleDoc ss =
     \<lparr>d_Identifier = ''demo'', d_AppVersion = ''v0.1.0'', d_AtmoVersion = ''v0.2.0'',
      d_Runnables = [\<lparr>r_Name = ''fetch'', r_Namespace = ''default''\<rparr>],
      d_Handlers = [], d_Schedules = ss, d_fqfns = None\<rparr>"

definition tickSchedule :: "int \<Rightarrow> Schedule" where
  "tickSchedule secs =
     \<lparr>s_Name = ''tick'',
      s_Every = \<lparr>ev_Seconds = secs, ev_Minutes = 0, ev_Hours = 0, ev_Days = 0\<rparr>,
      s_State = [], s_Steps = [fnStep (plainFn ''fetch'')]\<rparr>"

text \<open>The part of Validate that a problem comes from, read off its constructor.\<close>

datatype origin = FromHeader | FromRunnables | FromHandler | FromSchedule | FromStep

fun originOf :: "problem \<Rightarrow> origin" where
  "originOf IdentifierMissing = FromHeader"
| "originOf AppVersionInvalid = FromHeader"
| "originOf AtmoVersionInvalid = FromHeader"
| "originOf NoFunctions = FromHeader"
| "originOf (DuplicateFn n) = FromRunnables"
| "originOf (FnMissingName i) = FromRunnables"
| "originOf (FnMissingNamespace i) = FromRunnables"
| "originOf (HandlerMissingType r) = FromHandler"
| "originOf (HandlerMissingResource r) = FromHandler"
| "originOf (HandlerMissingMethod r) = FromHandler"
| "originOf (HandlerMissingSteps r) = FromHandler"
| "originOf (HandlerGroupNoResponse n) = FromHandler"
| "originOf (HandlerResponseMissing n r) = FromHandler"
| "originOf (ScheduleNoName i) = FromSchedule"
| "originOf (ScheduleMissingSteps n) = FromSchedule"
| "originOf (ScheduleNoEvery n) = FromSchedule"
| "originOf (StepNotExecutable j t n) = FromStep"
| "originOf (FnNotExist t n j f) = FromStep"
| "originOf (InvalidWith t n j e) = FromStep"
| "originOf (WithKeyNotAvailable t n j k) = FromStep"
| "originOf (OnErrAnyWithCodes t n j) = FromStep"
| "originOf (OnErrAnyInvalid t n j v) = FromStep"
| "originOf (OnErrOtherWithoutCodes t n j) = FromStep"
| "originOf (OnErrOtherInvalid t n j v) = FromStep"
| "originOf (OnErrCodeInvalid t n j c v) = FromStep"
| "originOf (ForEachMissingAs j t n) = FromStep"
| "originOf (ForEachFnAsOrWith j t n) = FromStep"

text \<open>A version predicate that accepts every string, for the examples.\<close>

definition acceptAll :: "string \<Rightarrow> bool" where
  "acceptAll v = True"

text \<open>
  The cache of FQFNs is unset, or holds what calculateFQFNs computes from the
  Directive as it is now.
\<close>

definition fqfnsCurrent :: "Directive \<Rightarrow> bool" where
  "fqfnsCurrent d = (d_fqfns d = None \<or> d_fqfns d = d_fqfns (calculateFQFNs d))"

text \<open>A document of the given runnables, with no handler and no schedule.\<close>

definition demoRunnablesDoc :: "Runnable list \<Rightarrow> Directive" where
  "demoRunnablesDoc rs =
     \<lparr>d_Identifier = ''demo'', d_AppVersion = ''v0.1.0'', d_AtmoVersion = ''v0.2.0'',
      d_Runnables = rs, d_Handlers = [], d_Schedules = [], d_fqfns = None\<rparr>"

text \<open>
  The loop over the runnables, position by position: the map \<open>fns\<close> on entry to
  position \<open>i\<close>, and what the body appends there. A position is reported as a
  duplicate when the body appends the duplicate problem; it registers its keys when
  it is not reported and has a name.
\<close>

definition fnsBefore :: "Directive \<Rightarrow> nat \<Rightarrow> (string \<rightharpoonup> bool)" where
  "fnsBefore d i = fst (validateRunnables 0 (take i (d_Runnables d)) (Map.empty, []))"

definition positionProblems :: "Directive \<Rightarrow> nat \<Rightarrow> problems" where
  "positionProblems d i = snd (validateRunnable i (d_Runnables d ! i) (fnsBefore d i, []))"

definition reportedDuplicate :: "Directive \<Rightarrow> nat \<Rightarrow> bool" where
  "reportedDuplicate d i =
     (positionProblems d i = [DuplicateFn (namespacedName (d_Runnables d ! i))])"

definition registers :: "Directive \<Rightarrow> nat \<Rightarrow> bool" where
  "registers d k = (\<not> reportedDuplicate d k \<and> r_Name (d_Runnables d ! k) \<noteq> [])"

definition keysOf :: "Runnable \<Rightarrow> string set" where
  "keysOf f = (if r_Namespace f = NamespaceDefault then {r_Name f, namespacedName f}
               else {namespacedName f})"

fun isDuplicateFn :: "problem \<Rightarrow> bool" where
  "isDuplicateFn (DuplicateFn n) = True"
| "isDuplicateFn p = False"

text \<open>A dependency defect on the key \<open>k\<close>, at any step of any sequence.\<close>

fun isDependencyOn :: "string \<Rightarrow> problem \<Rightarrow> bool" where
  "isDependencyOn k (WithKeyNotAvailable t n j k') = (k' = k)"
| "isDependencyOn k p = False"

text \<open>The calls that validateSteps hands to validateFn in a step.\<close>

definition callsOf :: "Executable \<Rightarrow> CallableFn list" where
  "callsOf s = (if IsFn s then [e_CallableFn s]
     else if IsGroup s then the (e_Group s)
     else if IsForEach s then [fe_Fn (the (e_ForEach s))] else [])"

text \<open>The Alias that ParseWith stores for an entry that splits in two (line 394).\<close>

definition aliasOf :: "string \<Rightarrow> Alias" where
  "aliasOf w = \<lparr>a_Key = Split w '': '' ! 1, a_Alias = Split w '': '' ! 0\<rparr>"

text \<open>A schedule \<open>tick\<close> of the given initial state and steps, run every 30 seconds.\<close>

definition tickWith :: "(string \<times> string) list \<Rightarrow> Executable list \<Rightarrow> Schedule" where
  "tickWith state steps =
     \<lparr>s_Name = ''tick'',
      s_Every = \<lparr>ev_Seconds = 30, ev_Minutes = 0, ev_Hours = 0, ev_Days = 0\<rparr>,
      s_State = state, s_Steps = steps\<rparr>"

text \<open>
  Two values of the model stand for the same Go value when they differ at most in
  the order in which the entries of the iterated maps are listed, the code map of an
  \<open>onErr\<close> policy and the initial state of a schedule.
\<close>

definition sameOnErr :: "FnOnErr \<Rightarrow> FnOnErr \<Rightarrow> bool" where
  "sameOnErr a b = (mset (o_Code a) = mset (o_Code b) \<and> o_Any a = o_Any b \<and> o_Other a = o_Other b)"

definition sameFn :: "CallableFn \<Rightarrow> CallableFn \<Rightarrow> bool" where
  "sameFn a b = (c_Fn a = c_Fn b \<and> c_As a = c_As b \<and> c_With a = c_With b \<and>
                 rel_option sameOnErr (c_OnErr a) (c_OnErr b) \<and>
                 c_DesiredState a = c_DesiredState b)"

definition sameForEach :: "ForEach \<Rightarrow> ForEach \<Rightarrow> bool" where
  "sameForEach a b = (fe_In a = fe_In b \<and> sameFn (fe_Fn a) (fe_Fn b) \<and> fe_As a = fe_As b)"

definition sameStep :: "Executable \<Rightarrow> Executable \<Rightarrow> bool" where
  "sameStep a b = (sameFn (e_CallableFn a) (e_CallableFn b) \<and>
                   rel_option (list_all2 sameFn) (e_Group a) (e_Group b) \<and>
                   rel_option sameForEach (e_ForEach a) (e_ForEach b))"

definition sameHandler :: "Handler \<Rightarrow> Handler \<Rightarrow> bool" where
  "sameHandler a b = (h_Input a = h_Input b \<and> list_all2 sameStep (h_Steps a) (h_Steps b) \<and>
                      h_Response a = h_Response b)"

definition sameSchedule :: "Schedule \<Rightarrow> Schedule \<Rightarrow> bool" where
  "sameSchedule a b = (s_Name a = s_Name b \<and> s_Every a = s_Every b \<and>
                       mset (s_State a) = mset (s_State b) \<and>
                       list_all2 sameStep (s_Steps a) (s_Steps b))"

definition sameDirective :: "Directive \<Rightarrow> Directive \<Rightarrow> bool" where
  "sameDirective a b = (d_Identifier a = d_Identifier b \<and> d_AppVersion a = d_AppVersion b \<and>
                        d_AtmoVersion a = d_AtmoVersion b \<and> d_Runnables a = d_Runnables b \<and>
                        list_all2 sameHandler (d_Handlers a) (d_Handlers b) \<and>
                        list_all2 sameSchedule (d_Schedules a) (d_Schedules b) \<and>
                        d_fqfns a = d_fqfns b)"

fun isCodeDefect :: "problem \<Rightarrow> bool" where
  "isCodeDefect (OnErrCodeInvalid t n j c v) = True"
| "isCodeDefect p = False"

text \<open>
  Two collectors hold the same problems in the same order, except that the
  per-code defects which the loop over the code map of one call appends may come
  in the order of another listing of the same map.
\<close>

inductive sameProblems :: "problems \<Rightarrow> problems \<Rightarrow> bool" where
  same: "sameProblems ps ps"
| codes: "mset cs = mset cs' \<Longrightarrow>
          sameProblems (checkCodes t n j cs []) (checkCodes t n j cs' [])"
| app: "sameProblems a b \<Longrightarrow> sameProblems c d \<Longrightarrow> sameProblems (a @ c) (b @ d)"

text \<open>
  The document of one handler whose single step calls \<open>fetch\<close> with an \<open>onErr\<close> policy
  of the given codes, listed in the order in which a run enumerates them.
\<close>

definition onErrDoc :: "(int \<times> string) list \<Rightarrow> Directive" where
  "onErrDoc codes =
     demoHandlerDoc
       [fnStep ((plainFn ''fetch'')\<lparr>c_OnErr := Some \<lparr>o_Code = codes, o_Any = [], o_Other = []\<rparr>\<rparr>)] []"


section \<open>Validate over an explicit store\<close>

text \<open>
  The one write of Validate that goes through a pointer is that of ParseWith, whose
  receiver is a \<open>*CallableFn\<close>. To see where it lands, the CallableFn structs are
  put in a store: a cell for every CallableFn of the Directive (the one embedded
  in each Executable, the elements of each group, the \<open>Fn\<close> of each ForEach), and a
  new cell for every variable of that type whose address is taken. An address is
  an index of the store, and a new variable is a cell appended to it. The fields
  of the other structs are read and never assigned, so they stay values. A
  \<open>DesiredState\<close> slice is kept by value in its cell: ParseWith assigns its elements
  only after \<open>make\<close> has given the receiver an array of its own.
\<close>

type_synonym addr = nat

type_synonym store = "CallableFn list"

record ForEach_s =
  fes_In :: string
  fes_Fn :: addr
  fes_As :: string

record Executable_s =
  es_CallableFn :: addr
  es_Group :: "addr list option"
  es_ForEach :: "ForEach_s option"

record Handler_s =
  hs_Input :: Input
  hs_Steps :: "Executable_s list"
  hs_Response :: string

record Schedule_s =
  ss_Name :: string
  ss_Every :: ScheduleEvery
  ss_State :: "(string \<times> string) list"
  ss_Steps :: "Executable_s list"

record Directive_s =
  ds_Identifier :: string
  ds_AppVersion :: string
  ds_AtmoVersion :: string
  ds_Runnables :: "Runnable list"
  ds_Handlers :: "Handler_s list"
  ds_Schedules :: "Schedule_s list"
  ds_fqfns :: "(string \<rightharpoonup> string) option"

text \<open>Reading a struct out of the store gives its value.\<close>

definition loadForEach :: "store \<Rightarrow> ForEach_s \<Rightarrow> ForEach" where
  "loadForEach \<sigma> fe = \<lparr>fe_In = fes_In fe, fe_Fn = \<sigma> ! fes_Fn fe, fe_As = fes_As fe\<rparr>"

definition loadStep :: "store \<Rightarrow> Executable_s \<Rightarrow> Executable" where
  "loadStep \<sigma> es =
     \<lparr>e_CallableFn = \<sigma> ! es_CallableFn es,
      e_Group = map_option (map (\<lambda>a. \<sigma> ! a)) (es_Group es),
      e_ForEach = map_option (loadForEach \<sigma>) (es_ForEach es)\<rparr>"

definition loadHandler :: "store \<Rightarrow> Handler_s \<Rightarrow> Handler" where
  "loadHandler \<sigma> h =
     \<lparr>h_Input = hs_Input h, h_Steps = map (loadStep \<sigma>) (hs_Steps h),
      h_Response = hs_Response h\<rparr>"

definition loadSchedule :: "store \<Rightarrow> Schedule_s \<Rightarrow> Schedule" where
  "loadSchedule \<sigma> s =
     \<lparr>s_Name = ss_Name s, s_Every = ss_Every s, s_State = ss_State s,
      s_Steps = map (loadStep \<sigma>) (ss_Steps s)\<rparr>"

definition loadDirective :: "store \<Rightarrow> Directive_s \<Rightarrow> Directive" where
  "loadDirective \<sigma> d =
     \<lparr>d_Identifier = ds_Identifier d, d_AppVersion = ds_AppVersion d,
      d_AtmoVersion = ds_AtmoVersion d, d_Runnables = ds_Runnables d,
      d_Handlers = map (loadHandler \<sigma>) (ds_Handlers d),
      d_Schedules = map (loadSchedule \<sigma>) (ds_Schedules d), d_fqfns = ds_fqfns d\<rparr>"

text \<open>Every address of the Directive is a cell of the store.\<close>

definition stepInStore :: "store \<Rightarrow> Executable_s \<Rightarrow> bool" where
  "stepInStore \<sigma> es =
     (es_CallableFn es < length \<sigma> \<and>
      (case es_Group es of None \<Rightarrow> True | Some g \<Rightarrow> list_all (\<lambda>a. a < length \<sigma>) g) \<and>
      (case es_ForEach es of None \<Rightarrow> True | Some fe \<Rightarrow> fes_Fn fe < length \<sigma>))"

definition directiveInStore :: "store \<Rightarrow> Directive_s \<Rightarrow> bool" where
  "directiveInStore \<sigma> d =
     (list_all (\<lambda>h. list_all (stepInStore \<sigma>) (hs_Steps h)) (ds_Handlers d) \<and>
      list_all (\<lambda>s. list_all (stepInStore \<sigma>) (ss_Steps s)) (ds_Schedules d))"

text \<open>Every cell of the first store is, in the second, where and what it was.\<close>

definition keeps :: "store \<Rightarrow> store \<Rightarrow> bool" where
  "keeps \<sigma> \<sigma>' = (take (length \<sigma>) \<sigma>' = \<sigma>)"

text \<open>
  ParseWith with its receiver as an address \<open>c\<close>: every assignment to
  \<open>c.DesiredState\<close>, and to an element of it, is a write to the cell \<open>c\<close>.
\<close>

fun parseLoop_s :: "store \<Rightarrow> addr \<Rightarrow> string list \<Rightarrow> nat \<Rightarrow> store \<times> parse_error option" where
  "parseLoop_s \<sigma> c [] i = (\<sigma>, None)"
| "parseLoop_s \<sigma> c (w # ws) i =
     (let parts = Split w '': '' in
      if length parts \<noteq> 2 then (\<sigma>, Some (WrongFormat (length parts)))
      else parseLoop_s
             (\<sigma>[c := (\<sigma> ! c)\<lparr>c_DesiredState :=
                      (c_DesiredState (\<sigma> ! c))[i := \<lparr>a_Key = parts ! 1, a_Alias = parts ! 0\<rparr>]\<rparr>])
             c ws (Suc i))"

definition ParseWith_s :: "store \<Rightarrow> addr \<Rightarrow> store \<times> (parse_error + Alias list)" where
  "ParseWith_s \<sigma> c =
     (if length (c_DesiredState (\<sigma> ! c)) > 0 then (\<sigma>, Inr (c_DesiredState (\<sigma> ! c)))
      else (let \<sigma>1 = \<sigma>[c := (\<sigma> ! c)\<lparr>c_DesiredState :=
                               replicate (length (c_With (\<sigma> ! c))) zeroAlias\<rparr>]
            in case parseLoop_s \<sigma>1 c (c_With (\<sigma>1 ! c)) 0 of
                 (\<sigma>2, Some e) \<Rightarrow> (\<sigma>2, Inl e)
               | (\<sigma>2, None) \<Rightarrow> (\<sigma>2, Inr (c_DesiredState (\<sigma>2 ! c)))))"

text \<open>
  validateFn over the store. Its parameter \<open>fn\<close> is passed by value: the call makes
  a new variable, the cell \<open>c\<close> appended to the store, and \<open>fn.ParseWith()\<close> takes the
  address of that variable.
\<close>

definition validateFn_s ::
  "executableType \<Rightarrow> string \<Rightarrow> nat \<Rightarrow> (string \<rightharpoonup> bool) \<Rightarrow> (string \<rightharpoonup> bool) \<Rightarrow> CallableFn \<Rightarrow>
   store \<times> (string list \<times> problems) \<Rightarrow> store \<times> (string list \<times> problems)" where
  "validateFn_s exType name j fns fullState fn st =
     (let \<sigma> = fst st; fnsToAdd = fst (snd st); p = snd (snd st);
          c = length \<sigma>; \<sigma>1 = \<sigma> @ [fn];
          p1 = (if fns (c_Fn (\<sigma>1 ! c)) = None
                then add (FnNotExist exType name j (c_Fn (\<sigma>1 ! c))) p else p);
          r = ParseWith_s \<sigma>1 c; \<sigma>2 = fst r;
          p2 = (case snd r of
                  Inl err \<Rightarrow> add (InvalidWith exType name j err) p1
                | Inr _ \<Rightarrow> p1);
          p3 = checkDesiredState exType name j fullState (c_DesiredState (\<sigma>2 ! c)) p2;
          p4 = (case c_OnErr (\<sigma>2 ! c) of None \<Rightarrow> p3
                | Some oe \<Rightarrow> checkOnErr exType name j oe p3);
          key = (if c_As (\<sigma>2 ! c) \<noteq> [] then c_As (\<sigma>2 ! c) else c_Fn (\<sigma>2 ! c))
      in (\<sigma>2, (fnsToAdd @ [key], p4)))"

text \<open>
  The loop over a group: \<open>gfn\<close> is the copy of the element at the address \<open>a\<close>, read
  when the loop gets there.
\<close>

fun validateGroup_s ::
  "executableType \<Rightarrow> string \<Rightarrow> nat \<Rightarrow> (string \<rightharpoonup> bool) \<Rightarrow> (string \<rightharpoonup> bool) \<Rightarrow> addr list \<Rightarrow>
   store \<times> (string list \<times> problems) \<Rightarrow> store \<times> (string list \<times> problems)" where
  "validateGroup_s exType name j fns fullState [] st = st"
| "validateGroup_s exType name j fns fullState (a # as) st =
     validateGroup_s exType name j fns fullState as
       (validateFn_s exType name j fns fullState (fst st ! a) st)"

text \<open>
  The body of the loop over the steps: \<open>s\<close> is the copy of the Executable that the
  \<open>range\<close> makes, read from the store on entry.
\<close>

definition validateStep_s ::
  "executableType \<Rightarrow> string \<Rightarrow> nat \<Rightarrow> (string \<rightharpoonup> bool) \<Rightarrow> Executable_s \<Rightarrow>
   store \<times> ((string \<rightharpoonup> bool) \<times> problems) \<Rightarrow> store \<times> ((string \<rightharpoonup> bool) \<times> problems)" where
  "validateStep_s exType name j fns es st =
     (let \<sigma> = fst st; fullState = fst (snd st); p = snd (snd st);
          s = loadStep \<sigma> es;
          p1 = (if \<not> IsFn s \<and> \<not> IsGroup s \<and> \<not> IsForEach s
                then add (StepNotExecutable j exType name) p else p);
          r = (if IsFn s
               then validateFn_s exType name j fns fullState (e_CallableFn s) (\<sigma>, ([], p1))
               else if IsGroup s
               then validateGroup_s exType name j fns fullState (the (es_Group es)) (\<sigma>, ([], p1))
               else if IsForEach s
               then (let fe = the (e_ForEach s);
                         q1 = (if fe_As fe = [] then add (ForEachMissingAs j exType name) p1
                               else p1);
                         q2 = (if c_As (fe_Fn fe) \<noteq> [] \<or> length (c_With (fe_Fn fe)) > 0
                               then add (ForEachFnAsOrWith j exType name) q1 else q1);
                         v = validateFn_s exType name j fns fullState (fe_Fn fe) (\<sigma>, ([], q2))
                     in (fst v, ((fst (snd v))[length (fst (snd v)) - 1 := fe_As fe],
                                 snd (snd v))))
               else (\<sigma>, ([], p1)))
      in (fst r, (addKeys (fst (snd r)) fullState, snd (snd r))))"

fun validateStepsFrom_s ::
  "executableType \<Rightarrow> string \<Rightarrow> nat \<Rightarrow> (string \<rightharpoonup> bool) \<Rightarrow> Executable_s list \<Rightarrow>
   store \<times> ((string \<rightharpoonup> bool) \<times> problems) \<Rightarrow> store \<times> ((string \<rightharpoonup> bool) \<times> problems)" where
  "validateStepsFrom_s exType name j fns [] st = st"
| "validateStepsFrom_s exType name j fns (s # ss) st =
     validateStepsFrom_s exType name (Suc j) fns ss (validateStep_s exType name j fns s st)"

definition validateSteps_s ::
  "executableType \<Rightarrow> string \<Rightarrow> Executable_s list \<Rightarrow> (string \<rightharpoonup> bool) \<Rightarrow> (string \<rightharpoonup> bool) \<Rightarrow>
   store \<times> problems \<Rightarrow> store \<times> ((string \<rightharpoonup> bool) \<times> problems)" where
  "validateSteps_s exType name steps initialState fns st =
     validateStepsFrom_s exType name 0 fns steps (fst st, (initialState, snd st))"

text \<open>The body of the loop over the handlers: \<open>h\<close> is the copy that the \<open>range\<close> makes.\<close>

definition validateHandler_s ::
  "(string \<rightharpoonup> bool) \<Rightarrow> Handler_s \<Rightarrow> store \<times> problems \<Rightarrow> store \<times> problems" where
  "validateHandler_s fns h st =
     (let \<sigma> = fst st; p = snd st; inp = hs_Input h;
          p1 = (if i_Type inp = [] then add (HandlerMissingType (i_Resource inp)) p else p);
          p2 = (if i_Resource inp = [] then add (HandlerMissingResource (i_Resource inp)) p1
                else p1);
          p3 = (if i_Type inp = InputTypeRequest \<and> i_Method inp = []
                then add (HandlerMissingMethod (i_Resource inp)) p2 else p2)
      in if length (hs_Steps h) = 0 then (\<sigma>, add (HandlerMissingSteps (i_Resource inp)) p3)
         else (let name = i_Method inp @ '' '' @ i_Resource inp;
                   r = validateSteps_s executableTypeHandler name (hs_Steps h) Map.empty fns
                         (\<sigma>, p3);
                   \<sigma>' = fst r; fullState = fst (snd r); p4 = snd (snd r);
                   lastStep = loadStep \<sigma>' (last (hs_Steps h))
               in if hs_Response h = [] \<and> IsGroup lastStep
                  then (\<sigma>', add (HandlerGroupNoResponse name) p4)
                  else if hs_Response h \<noteq> []
                  then (if fullState (hs_Response h) = None
                        then (\<sigma>', add (HandlerResponseMissing name (hs_Response h)) p4)
                        else (\<sigma>', p4))
                  else (\<sigma>', p4)))"

fun validateHandlers_s ::
  "(string \<rightharpoonup> bool) \<Rightarrow> Handler_s list \<Rightarrow> store \<times> problems \<Rightarrow> store \<times> problems" where
  "validateHandlers_s fns [] st = st"
| "validateHandlers_s fns (h # hs) st = validateHandlers_s fns hs (validateHandler_s fns h st)"

text \<open>The body of the loop over the schedules.\<close>

definition validateSchedule_s ::
  "(string \<rightharpoonup> bool) \<Rightarrow> nat \<Rightarrow> Schedule_s \<Rightarrow> store \<times> problems \<Rightarrow> store \<times> problems" where
  "validateSchedule_s fns i s st =
     (let \<sigma> = fst st; p = snd st in
      if ss_Name s = [] then (\<sigma>, add (ScheduleNoName i) p)
      else if length (ss_Steps s) = 0 then (\<sigma>, add (ScheduleMissingSteps (ss_Name s)) p)
      else (let ev = ss_Every s;
                p1 = (if ev_Seconds ev = 0 \<and> ev_Minutes ev = 0 \<and> ev_Hours ev = 0 \<and>
                         ev_Days ev = 0
                      then add (ScheduleNoEvery (ss_Name s)) p else p);
                initialState = primeState (ss_State s) Map.empty;
                r = validateSteps_s executableTypeSchedule (ss_Name s) (ss_Steps s)
                      initialState fns (\<sigma>, p1)
            in (fst r, snd (snd r))))"

fun validateSchedules_s ::
  "(string \<rightharpoonup> bool) \<Rightarrow> nat \<Rightarrow> Schedule_s list \<Rightarrow> store \<times> problems \<Rightarrow> store \<times> problems" where
  "validateSchedules_s fns i [] st = st"
| "validateSchedules_s fns i (s # ss) st =
     validateSchedules_s fns (Suc i) ss (validateSchedule_s fns i s st)"

text \<open>
  Validate over the store: the store and the collector at the end, and the store
  with the error returned. The head of the document and the runnables are read
  only.
\<close>

definition collect_s :: "(string \<Rightarrow> bool) \<Rightarrow> Directive_s \<Rightarrow> store \<Rightarrow> store \<times> problems" where
  "collect_s IsValid d \<sigma> =
     (let p0 = validateHeader IsValid (loadDirective \<sigma> d) [];
          r = validateRunnables 0 (ds_Runnables d) (Map.empty, p0);
          fns = fst r;
          h = validateHandlers_s fns (ds_Handlers d) (\<sigma>, snd r)
      in validateSchedules_s fns 0 (ds_Schedules d) h)"

definition Validate_s :: "(string \<Rightarrow> bool) \<Rightarrow> Directive_s \<Rightarrow> store \<Rightarrow> store \<times> string option" where
  "Validate_s IsValid d \<sigma> = (fst (collect_s IsValid d \<sigma>), render (snd (collect_s IsValid d \<sigma>)))"

text \<open>
  The Directive of one handler whose single step is the CallableFn of cell 0, and
  a call of \<open>fetch\<close> with one binding and an \<open>onErr\<close> policy of the given codes.
\<close>

definition storeDoc :: Directive_s where
  "storeDoc =
     \<lparr>ds_Identifier = ''demo'', ds_AppVersion = ''v0.1.0'', ds_AtmoVersion = ''v0.2.0'',
      ds_Runnables = [\<lparr>r_Name = ''fetch'', r_Namespace = ''default''\<rparr>],
      ds_Handlers = [\<lparr>hs_Input = \<lparr>i_Type = ''request'', i_Method = ''GET'', i_Resource = ''/x''\<rparr>,
                       hs_Steps = [\<lparr>es_CallableFn = 0, es_Group = None, es_ForEach = None\<rparr>],
                       hs_Response = []\<rparr>],
      ds_Schedules = [], ds_fqfns = None\<rparr>"

definition storeCall :: "(int \<times> string) list \<Rightarrow> CallableFn" where
  "storeCall codes =
     \<lparr>c_Fn = ''fetch'', c_As = [], c_With = [''user: fetch''],
      c_OnErr = Some \<lparr>o_Code = codes, o_Any = [], o_Other = []\<rparr>, c_DesiredState = []\<rparr>"


section \<open>The collector only grows\<close>

text \<open>
  Every function appends to the collector it is given and changes nothing of what
  the collector already holds.
\<close>

lemma checkDesiredState_eq:
  "checkDesiredState t n j fs ds p =
     p @ map (\<lambda>d. WithKeyNotAvailable t n j (a_Key d)) (filter (\<lambda>d. fs (a_Key d) = None) ds)"
  by (induction ds arbitrary: p) (simp_all add: add_def)

lemma checkCodes_eq:
  "checkCodes t n j cs p =
     p @ map (\<lambda>cv. OnErrCodeInvalid t n j (fst cv) (snd cv))
           (filter (\<lambda>cv. snd cv \<noteq> ''return'' \<and> snd cv \<noteq> ''continue'') cs)"
  by (induction cs arbitrary: p) (auto simp: add_def)

lemma checkOnErr_app: "checkOnErr t n j oe p = p @ checkOnErr t n j oe []"
  by (simp add: checkOnErr_def Let_def add_def checkCodes_eq)

lemma ParseWith_frame:
  "c_Fn (fst (ParseWith c)) = c_Fn c" "c_As (fst (ParseWith c)) = c_As c"
  "c_With (fst (ParseWith c)) = c_With c" "c_OnErr (fst (ParseWith c)) = c_OnErr c"
  by (simp_all add: ParseWith_def split: prod.splits option.splits)

lemma validateFn_eq:
  "validateFn t n j fns fs fn (ks, p) = (ks @ [fnKey fn], p @ fnProblems t n j fns fs fn)"
proof -
  have "snd (validateFn t n j fns fs fn (ks, p)) = p @ fnProblems t n j fns fs fn"
    unfolding fnProblems_def validateFn_def Let_def
    by (cases "c_OnErr fn"; cases "snd (ParseWith fn)")
       (simp_all add: ParseWith_frame add_def checkDesiredState_eq checkOnErr_app [of _ _ _ _ "_ @ _"]
                      checkOnErr_app [of _ _ _ _ "[_]"])
  moreover have "fst (validateFn t n j fns fs fn (ks, p)) = ks @ [fnKey fn]"
    by (simp add: validateFn_def Let_def fnKey_def ParseWith_frame)
  ultimately show ?thesis by (simp add: prod_eq_iff)
qed

lemma validateGroup_eq:
  "validateGroup t n j fns fs g (ks, p) =
     (ks @ map fnKey g, p @ concat (map (fnProblems t n j fns fs) g))"
  by (induction g arbitrary: ks p) (simp_all add: validateFn_eq)

lemma dom_addKeys: "dom (addKeys ks fs) = dom fs \<union> set ks"
  by (induction ks arbitrary: fs) auto

lemma addKeys_append: "addKeys (ks @ ks') fs = addKeys ks' (addKeys ks fs)"
  by (induction ks arbitrary: fs) auto

lemma validateStep_eq:
  "validateStep t n j fns s (fs, p) = (addKeys (stepKeys s) fs, p @ stepProblems t n j fns fs s)"
  unfolding stepProblems_def validateStep_def Let_def stepKeys_def
  by (simp add: validateFn_eq validateGroup_eq add_def)

lemma validateStepsFrom_eq:
  "validateStepsFrom t n j fns steps (fs, p) =
     (addKeys (concat (map stepKeys steps)) fs,
      p @ concat (map (\<lambda>i. stepProblems t n (j + i) fns (stateAt steps fs i) (steps ! i))
                   [0..<length steps]))"
proof (induction steps arbitrary: j fs p)
  case Nil
  then show ?case by simp
next
  case (Cons s ss)
  have shift: "map (\<lambda>i. stepProblems t n (j + i) fns (stateAt (s # ss) fs i) ((s # ss) ! i))
                 [0..<length (s # ss)] =
               stepProblems t n j fns fs s #
               map (\<lambda>i. stepProblems t n (Suc j + i) fns (stateAt ss (addKeys (stepKeys s) fs) i) (ss ! i))
                 [0..<length ss]"
    by (simp add: upt_conv_Cons map_Suc_upt [symmetric] stateAt_def addKeys_append
             del: upt_Suc)
  show ?case
    by (simp only: validateStepsFrom.simps validateStep_eq Cons.IH shift)
       (simp add: addKeys_append)
qed

section \<open>The for-each step\<close>



section \<open>What one call and one document contribute\<close>

lemma fnProblems_eq:
  "fnProblems t n j fns fs fn =
     (if fns (c_Fn fn) = None then [FnNotExist t n j (c_Fn fn)] else []) @
     (case snd (ParseWith fn) of Inl e \<Rightarrow> [InvalidWith t n j e] | Inr x \<Rightarrow> []) @
     map (\<lambda>d. WithKeyNotAvailable t n j (a_Key d))
       (filter (\<lambda>d. fs (a_Key d) = None) (c_DesiredState (fst (ParseWith fn)))) @
     (case c_OnErr fn of None \<Rightarrow> [] | Some oe \<Rightarrow> checkOnErr t n j oe [])"
  unfolding fnProblems_def validateFn_def Let_def
  by (cases "c_OnErr fn"; cases "snd (ParseWith fn)")
     (simp_all add: ParseWith_frame add_def checkDesiredState_eq
        checkOnErr_app [of _ _ _ _ "_ @ _"] checkOnErr_app [of _ _ _ _ "[_]"])

lemma validateHeader_app: "validateHeader IsValid d p = p @ headerProblems IsValid d"
  by (simp add: validateHeader_def headerProblems_def Let_def add_def)

lemma validateRunnable_app:
  "validateRunnable i f (fns, p) =
     (fst (validateRunnable i f (fns, [])), p @ snd (validateRunnable i f (fns, [])))"
  by (simp add: validateRunnable_def Let_def add_def)

lemma validateRunnables_app:
  "validateRunnables i fs (fns, p) =
     (fst (validateRunnables i fs (fns, [])), p @ snd (validateRunnables i fs (fns, [])))"
proof (induction fs arbitrary: i fns p)
  case Nil
  then show ?case by simp
next
  case (Cons f fs)
  obtain fns' q where q: "validateRunnable i f (fns, []) = (fns', q)"
    by (cases "validateRunnable i f (fns, [])")
  have "validateRunnable i f (fns, p) = (fns', p @ q)"
    using validateRunnable_app [of i f fns p] q by simp
  then show ?case
    using q Cons.IH [of "Suc i" fns' "p @ q"] Cons.IH [of "Suc i" fns' q] by simp
qed

lemma validateSteps_eq:
  "validateSteps t n steps fs fns p =
     (addKeys (concat (map stepKeys steps)) fs,
      p @ concat (map (\<lambda>i. stepProblems t n i fns (stateAt steps fs i) (steps ! i))
                   [0..<length steps]))"
  using validateStepsFrom_eq [of t n 0 fns steps fs p] by (simp add: validateSteps_def)

lemma validateHandler_app: "validateHandler fns h p = p @ handlerProblems fns h"
  unfolding handlerProblems_def validateHandler_def Let_def
  by (auto simp: add_def validateSteps_eq)

lemma validateHandlers_app:
  "validateHandlers fns hs p = p @ concat (map (handlerProblems fns) hs)"
proof (induction hs arbitrary: p)
  case Nil
  then show ?case by simp
next
  case (Cons h hs)
  show ?case
    by (simp add: Cons.IH validateHandler_app [of fns h p])
qed

lemma validateSchedule_app: "validateSchedule fns i s p = p @ scheduleProblems fns i s"
  unfolding scheduleProblems_def validateSchedule_def Let_def
  by (auto simp: add_def validateSteps_eq)

lemma validateSchedules_app:
  "validateSchedules fns i ss p =
     p @ concat (map (\<lambda>k. scheduleProblems fns (i + k) (ss ! k)) [0..<length ss])"
proof (induction ss arbitrary: i p)
  case Nil
  then show ?case by simp
next
  case (Cons s ss)
  have shift: "map (\<lambda>k. scheduleProblems fns (i + k) ((s # ss) ! k)) [0..<length (s # ss)] =
               scheduleProblems fns i s #
               map (\<lambda>k. scheduleProblems fns (Suc i + k) (ss ! k)) [0..<length ss]"
    by (simp add: upt_conv_Cons map_Suc_upt [symmetric] del: upt_Suc)
  show ?case
    by (simp only: validateSchedules.simps Cons.IH shift validateSchedule_app [of fns i s p])
       simp
qed

lemma collect_eq:
  "collect IsValid d =
     headerProblems IsValid d @ runnableProblems d @
     concat (map (handlerProblems (knownFns d)) (d_Handlers d)) @
     concat (map (\<lambda>k. scheduleProblems (knownFns d) k (d_Schedules d ! k))
               [0..<length (d_Schedules d)])"
  unfolding collect_def Let_def
  using validateRunnables_app [of 0 "d_Runnables d" Map.empty "headerProblems IsValid d"]
  by (simp add: validateHeader_app [of IsValid d "[]"] validateHandlers_app
        validateSchedules_app runnableProblems_def knownFns_def)

section \<open>The error policy of a call\<close>



section \<open>A binding that does not split in two\<close>

text \<open>
  Claim C8, evaluated on the example of the specification: the document of one
  function \<open>fetch\<close> and one request handler whose single step is the call of \<open>fetch\<close>
  with the one-part binding "user". ParseWith fails on the entry and leaves a
  zero Alias in the \<open>DesiredState\<close> of its receiver, which validateFn then checks:
  the collector holds two problems, the syntax defect and a dependency defect on
  the empty key.
\<close>

theorem with_one_part_two_problems:
  "collect acceptAll (demoHandlerDoc [fnStep ((plainFn ''fetch'')\<lparr>c_With := [''user'']\<rparr>)] []) =
     [InvalidWith executableTypeHandler ''GET /x'' 0 (WrongFormat 1),
      WithKeyNotAvailable executableTypeHandler ''GET /x'' 0 []]
   \<and> fst (ParseWith ((plainFn ''fetch'')\<lparr>c_With := [''user'']\<rparr>)) =
       (plainFn ''fetch'')\<lparr>c_With := [''user''], c_DesiredState := [zeroAlias]\<rparr>"
  by (simp add: acceptAll_def collect_def validateHeader_def validateRunnable_def namespacedName_def
        NamespaceDefault_def validateHandler_def InputTypeRequest_def validateSteps_def
        validateStep_def validateFn_def ParseWith_def Split_def demoHandlerDoc_def fnStep_def
        plainFn_def IsFn_def IsGroup_def IsForEach_def add_def Let_def zeroAlias_def)

section \<open>Where each kind of problem comes from\<close>

lemma stepProblems_eq:
  "stepProblems t n j fns fs s =
     (if \<not> IsFn s \<and> \<not> IsGroup s \<and> \<not> IsForEach s then [StepNotExecutable j t n] else []) @
     (if IsFn s then fnProblems t n j fns fs (e_CallableFn s)
      else if IsGroup s then concat (map (fnProblems t n j fns fs) (the (e_Group s)))
      else if IsForEach s
      then (if fe_As (the (e_ForEach s)) = [] then [ForEachMissingAs j t n] else []) @
           (if c_As (fe_Fn (the (e_ForEach s))) \<noteq> [] \<or> c_With (fe_Fn (the (e_ForEach s))) \<noteq> []
            then [ForEachFnAsOrWith j t n] else []) @
           fnProblems t n j fns fs (fe_Fn (the (e_ForEach s)))
      else [])"
  unfolding stepProblems_def validateStep_def Let_def
  by (simp add: validateFn_eq validateGroup_eq add_def)

lemma origin_checkOnErr: "p \<in> set (checkOnErr t n j oe []) \<Longrightarrow> originOf p = FromStep"
  by (auto simp: checkOnErr_def Let_def add_def checkCodes_eq split: if_splits)

lemma origin_fnProblems: "p \<in> set (fnProblems t n j fns fs fn) \<Longrightarrow> originOf p = FromStep"
  by (auto simp: fnProblems_eq origin_checkOnErr split: if_splits sum.splits option.splits)

lemma origin_stepProblems: "p \<in> set (stepProblems t n j fns fs s) \<Longrightarrow> originOf p = FromStep"
  by (auto simp: stepProblems_eq origin_fnProblems split: if_splits)

lemma origin_headerProblems: "p \<in> set (headerProblems IsValid d) \<Longrightarrow> originOf p = FromHeader"
  by (auto simp: headerProblems_def validateHeader_def Let_def add_def split: if_splits)

lemma origin_validateRunnable:
  "p \<in> set (snd (validateRunnable i f (fns, []))) \<Longrightarrow> originOf p = FromRunnables"
  by (auto simp: validateRunnable_def Let_def add_def split: if_splits)

lemma origin_validateRunnables:
  "p \<in> set (snd (validateRunnables i fs (fns, []))) \<Longrightarrow> originOf p = FromRunnables"
proof (induction fs arbitrary: i fns)
  case Nil
  then show ?case by simp
next
  case (Cons f fs)
  obtain fns' q where q: "validateRunnable i f (fns, []) = (fns', q)"
    by (cases "validateRunnable i f (fns, [])")
  have "validateRunnables i (f # fs) (fns, []) =
        (fst (validateRunnables (Suc i) fs (fns', [])),
         q @ snd (validateRunnables (Suc i) fs (fns', [])))"
    using q validateRunnables_app [of "Suc i" fs fns' q] by simp
  with Cons.prems have "p \<in> set q \<or> p \<in> set (snd (validateRunnables (Suc i) fs (fns', [])))"
    by auto
  then show ?case
    using origin_validateRunnable [of p i f fns] q Cons.IH [of "Suc i" fns'] by auto
qed

lemma origin_runnableProblems: "p \<in> set (runnableProblems d) \<Longrightarrow> originOf p = FromRunnables"
  by (simp add: runnableProblems_def origin_validateRunnables)

lemma origin_handlerProblems:
  "p \<in> set (handlerProblems fns h) \<Longrightarrow> originOf p = FromHandler \<or> originOf p = FromStep"
  unfolding handlerProblems_def validateHandler_def Let_def
  by (auto simp: add_def validateSteps_eq origin_stepProblems split: if_splits)

lemma scheduleProblems_eq:
  "scheduleProblems fns i s =
     (if s_Name s = [] then [ScheduleNoName i]
      else if s_Steps s = [] then [ScheduleMissingSteps (s_Name s)]
      else (if everyAllZero s then [ScheduleNoEvery (s_Name s)] else []) @
           concat (map (\<lambda>k. stepProblems executableTypeSchedule (s_Name s) k fns
                              (stateAt (s_Steps s) (primeState (s_State s) Map.empty) k)
                              (s_Steps s ! k))
                     [0..<length (s_Steps s)]))"
  unfolding scheduleProblems_def validateSchedule_def Let_def everyAllZero_def
  by (simp add: add_def validateSteps_eq)

lemma noEvery_scheduleProblems:
  "ScheduleNoEvery nm \<in> set (scheduleProblems fns i s) \<longleftrightarrow>
     s_Name s = nm \<and> s_Name s \<noteq> [] \<and> s_Steps s \<noteq> [] \<and> everyAllZero s"
proof -
  have "\<And>k fs. ScheduleNoEvery nm \<notin> set (stepProblems executableTypeSchedule (s_Name s) k fns
                        fs (s_Steps s ! k))"
    using origin_stepProblems [of "ScheduleNoEvery nm"] by fastforce
  then show ?thesis
    by (auto simp: scheduleProblems_eq)
qed

lemma wrap64_id: "- (2 ^ 63) \<le> x \<Longrightarrow> x < 2 ^ 63 \<Longrightarrow> wrap64 x = x"
  by (simp add: wrap64_def)

lemma NumberOfSeconds_exact:
  assumes "0 \<le> ev_Seconds (s_Every s)" "0 \<le> ev_Minutes (s_Every s)"
    "0 \<le> ev_Hours (s_Every s)" "0 \<le> ev_Days (s_Every s)"
    "ev_Seconds (s_Every s) + 60 * ev_Minutes (s_Every s) + 3600 * ev_Hours (s_Every s) +
     86400 * ev_Days (s_Every s) < 2 ^ 63"
  shows "NumberOfSeconds s =
     ev_Seconds (s_Every s) + 60 * ev_Minutes (s_Every s) + 3600 * ev_Hours (s_Every s) +
     86400 * ev_Days (s_Every s)"
  using assms by (simp add: NumberOfSeconds_def Let_def wrap64_id)

section \<open>The interval of a schedule\<close>

text \<open>
  Claim C3 as stated fails: a schedule named \<open>tick\<close> with one step and
  \<open>every: {seconds: -1}\<close> has the summed interval -1, which is not greater than zero,
  and Validate reports nothing at all for the document.
\<close>

theorem interval_sum_counterexample:
  "s_Name (tickSchedule (- 1)) \<noteq> [] \<and> s_Steps (tickSchedule (- 1)) \<noteq> [] \<and>
   NumberOfSeconds (tickSchedule (- 1)) = - 1 \<and>
   collect acceptAll (demoScheduleDoc [tickSchedule (- 1)]) = []"
  by (simp add: acceptAll_def collect_def validateHeader_def validateRunnable_def namespacedName_def
        NamespaceDefault_def validateSchedule_def validateSteps_def
        validateStep_def validateFn_def ParseWith_def demoScheduleDoc_def tickSchedule_def
        fnStep_def plainFn_def IsFn_def IsGroup_def IsForEach_def add_def Let_def
        NumberOfSeconds_def wrap64_def)

text \<open>
  Claim C3 as amended. Validate reports the interval defect under a name exactly
  when some schedule of that name, with a non-empty name and at least one step, has
  all four fields of \<open>every\<close> equal to zero. For fields that are not negative and
  whose sum does not overflow, all four being zero is the same as the summed
  interval not being greater than zero.
\<close>

theorem interval_defect_iff_all_zero:
  "(ScheduleNoEvery nm \<in> set (collect IsValid d) \<longleftrightarrow>
      (\<exists>s \<in> set (d_Schedules d).
         s_Name s = nm \<and> s_Name s \<noteq> [] \<and> s_Steps s \<noteq> [] \<and> everyAllZero s))
   \<and> (0 \<le> ev_Seconds (s_Every s) \<and> 0 \<le> ev_Minutes (s_Every s) \<and>
       0 \<le> ev_Hours (s_Every s) \<and> 0 \<le> ev_Days (s_Every s) \<and>
       ev_Seconds (s_Every s) + 60 * ev_Minutes (s_Every s) + 3600 * ev_Hours (s_Every s) +
       86400 * ev_Days (s_Every s) < 2 ^ 63 \<longrightarrow>
       (everyAllZero s \<longleftrightarrow> \<not> 0 < NumberOfSeconds s))"
proof -
  have h: "ScheduleNoEvery nm \<notin> set (headerProblems IsValid d)"
    using origin_headerProblems [of "ScheduleNoEvery nm"] by auto
  have r: "ScheduleNoEvery nm \<notin> set (runnableProblems d)"
    using origin_runnableProblems [of "ScheduleNoEvery nm"] by auto
  have hh: "\<forall>x \<in> set (d_Handlers d). ScheduleNoEvery nm \<notin> set (handlerProblems (knownFns d) x)"
    using origin_handlerProblems [of "ScheduleNoEvery nm"] by auto
  have "ScheduleNoEvery nm \<in> set (collect IsValid d) \<longleftrightarrow>
        (\<exists>k < length (d_Schedules d).
           ScheduleNoEvery nm \<in> set (scheduleProblems (knownFns d) k (d_Schedules d ! k)))"
    using h r hh by (auto simp: collect_eq)
  also have "\<dots> \<longleftrightarrow> (\<exists>s \<in> set (d_Schedules d).
         s_Name s = nm \<and> s_Name s \<noteq> [] \<and> s_Steps s \<noteq> [] \<and> everyAllZero s)"
    unfolding noEvery_scheduleProblems by (metis in_set_conv_nth)
  finally have a: "ScheduleNoEvery nm \<in> set (collect IsValid d) \<longleftrightarrow>
      (\<exists>s \<in> set (d_Schedules d).
         s_Name s = nm \<and> s_Name s \<noteq> [] \<and> s_Steps s \<noteq> [] \<and> everyAllZero s)" .
  have b: "0 \<le> ev_Seconds (s_Every s) \<and> 0 \<le> ev_Minutes (s_Every s) \<and>
       0 \<le> ev_Hours (s_Every s) \<and> 0 \<le> ev_Days (s_Every s) \<and>
       ev_Seconds (s_Every s) + 60 * ev_Minutes (s_Every s) + 3600 * ev_Hours (s_Every s) +
       86400 * ev_Days (s_Every s) < 2 ^ 63 \<longrightarrow>
       (everyAllZero s \<longleftrightarrow> \<not> 0 < NumberOfSeconds s)"
  proof
    assume asm: "0 \<le> ev_Seconds (s_Every s) \<and> 0 \<le> ev_Minutes (s_Every s) \<and>
       0 \<le> ev_Hours (s_Every s) \<and> 0 \<le> ev_Days (s_Every s) \<and>
       ev_Seconds (s_Every s) + 60 * ev_Minutes (s_Every s) + 3600 * ev_Hours (s_Every s) +
       86400 * ev_Days (s_Every s) < 2 ^ 63"
    then have "NumberOfSeconds s =
       ev_Seconds (s_Every s) + 60 * ev_Minutes (s_Every s) + 3600 * ev_Hours (s_Every s) +
       86400 * ev_Days (s_Every s)"
      using NumberOfSeconds_exact [of s] by simp
    with asm show "everyAllZero s \<longleftrightarrow> \<not> 0 < NumberOfSeconds s"
      unfolding everyAllZero_def by auto
  qed
  from a b show ?thesis by simp
qed

theorem interval_defect_iff_all_zero_witness:
  "ScheduleNoEvery ''tick'' \<in> set (collect acceptAll (demoScheduleDoc [tickSchedule 0]))
   \<and> \<not> 0 < NumberOfSeconds (tickSchedule 0)
   \<and> ScheduleNoEvery ''tick'' \<notin> set (collect acceptAll (demoScheduleDoc [tickSchedule 30]))
   \<and> 0 < NumberOfSeconds (tickSchedule 30)"
  using interval_defect_iff_all_zero [of "''tick''" acceptAll "demoScheduleDoc [tickSchedule 0]"
          "tickSchedule 0"]
        interval_defect_iff_all_zero [of "''tick''" acceptAll "demoScheduleDoc [tickSchedule 30]"
          "tickSchedule 30"]
  by (simp add: demoScheduleDoc_def tickSchedule_def everyAllZero_def fnStep_def)

section \<open>Looking up an FQFN\<close>

lemma first_separator:
  "x \<notin> set xs \<Longrightarrow> x \<notin> set xs' \<Longrightarrow> xs @ x # ys = xs' @ x # ys' \<Longrightarrow> xs = xs' \<and> ys = ys'"
proof (induction xs arbitrary: xs')
  case Nil
  then show ?case by (cases xs') auto
next
  case (Cons a xs)
  then show ?case by (cases xs') auto
qed

lemma hash_split:
  assumes "CHR ''#'' \<notin> set b" "CHR ''#'' \<notin> set b'" "a @ ''#'' @ b = a' @ ''#'' @ b'"
  shows "a = a' \<and> b = b'"
proof -
  from assms(3) have "rev (a @ ''#'' @ b) = rev (a' @ ''#'' @ b')" by simp
  then have "rev b @ CHR ''#'' # rev a = rev b' @ CHR ''#'' # rev a'" by simp
  moreover have "CHR ''#'' \<notin> set (rev b)" "CHR ''#'' \<notin> set (rev b')"
    using assms(1,2) by simp_all
  ultimately have "rev b = rev b' \<and> rev a = rev a'"
    using first_separator [of "CHR ''#''" "rev b" "rev b'" "rev a" "rev a'"] by blast
  then show ?thesis by simp
qed

lemma fqfnLoop_unknown:
  "(\<forall>x \<in> set rs. k \<noteq> namespacedName x \<and> (r_Namespace x = NamespaceDefault \<longrightarrow> k \<noteq> r_Name x))
   \<Longrightarrow> fqfnLoop d rs m k = m k"
  by (induction rs arbitrary: m) auto

lemma fqfnLoop_bare:
  "CHR ''#'' \<notin> set nm \<Longrightarrow>
   m nm = Some (fqfnForFunc d NamespaceDefault nm) \<or>
     (\<exists>x \<in> set rs. r_Name x = nm \<and> r_Namespace x = NamespaceDefault) \<Longrightarrow>
   fqfnLoop d rs m nm = Some (fqfnForFunc d NamespaceDefault nm)"
proof (induction rs arbitrary: m)
  case Nil
  then show ?case by simp
next
  case (Cons x rs)
  let ?m' = "if r_Namespace x = NamespaceDefault
             then m(r_Name x \<mapsto> fqfnForFunc d (r_Namespace x) (r_Name x),
                    namespacedName x \<mapsto> fqfnForFunc d (r_Namespace x) (r_Name x))
             else m(namespacedName x \<mapsto> fqfnForFunc d (r_Namespace x) (r_Name x))"
  have ne: "namespacedName x \<noteq> nm"
    using Cons.prems(1) by (auto simp: namespacedName_def)
  have "?m' nm = Some (fqfnForFunc d NamespaceDefault nm) \<or>
        (\<exists>x \<in> set rs. r_Name x = nm \<and> r_Namespace x = NamespaceDefault)"
    using Cons.prems(2) ne by auto
  then show ?case
    using Cons.IH [OF Cons.prems(1), of ?m'] by simp
qed

lemma fqfnLoop_namespaced:
  "\<forall>x \<in> set rs. CHR ''#'' \<notin> set (r_Name x) \<Longrightarrow>
   m (namespacedName r) = Some (fqfnForFunc d (r_Namespace r) (r_Name r)) \<or> r \<in> set rs \<Longrightarrow>
   fqfnLoop d rs m (namespacedName r) = Some (fqfnForFunc d (r_Namespace r) (r_Name r))"
proof (induction rs arbitrary: m)
  case Nil
  then show ?case by simp
next
  case (Cons x rs)
  have ne: "r_Name x \<noteq> namespacedName r"
    using Cons.prems(1) by (auto simp: namespacedName_def)
  have same: "namespacedName x = namespacedName r \<Longrightarrow>
              fqfnForFunc d (r_Namespace x) (r_Name x) = fqfnForFunc d (r_Namespace r) (r_Name r)"
    by (simp add: namespacedName_def fqfnForFunc_def)
  let ?m' = "if r_Namespace x = NamespaceDefault
             then m(r_Name x \<mapsto> fqfnForFunc d (r_Namespace x) (r_Name x),
                    namespacedName x \<mapsto> fqfnForFunc d (r_Namespace x) (r_Name x))
             else m(namespacedName x \<mapsto> fqfnForFunc d (r_Namespace x) (r_Name x))"
  have "?m' (namespacedName r) = Some (fqfnForFunc d (r_Namespace r) (r_Name r)) \<or> r \<in> set rs"
    using Cons.prems(2) ne same by auto
  moreover have "\<forall>x \<in> set rs. CHR ''#'' \<notin> set (r_Name x)"
    using Cons.prems(1) by simp
  ultimately show ?case
    using Cons.IH [of ?m'] by simp
qed

lemma fqfnLoop_values:
  assumes "\<forall>k val. m k = Some val \<longrightarrow>
             val = k @ ''@'' @ d_AppVersion d \<or>
             (val = NamespaceDefault @ ''#'' @ k @ ''@'' @ d_AppVersion d \<and> CHR ''#'' \<notin> set k)"
    and "\<forall>x \<in> set rs. CHR ''#'' \<notin> set (r_Name x)"
    and "fqfnLoop d rs m k = Some val"
  shows "val = k @ ''@'' @ d_AppVersion d \<or>
         (val = NamespaceDefault @ ''#'' @ k @ ''@'' @ d_AppVersion d \<and> CHR ''#'' \<notin> set k)"
  using assms
proof (induction rs arbitrary: m)
  case Nil
  then show ?case by simp
next
  case (Cons x rs)
  let ?m' = "if r_Namespace x = NamespaceDefault
             then m(r_Name x \<mapsto> fqfnForFunc d (r_Namespace x) (r_Name x),
                    namespacedName x \<mapsto> fqfnForFunc d (r_Namespace x) (r_Name x))
             else m(namespacedName x \<mapsto> fqfnForFunc d (r_Namespace x) (r_Name x))"
  have inv: "\<forall>k val. ?m' k = Some val \<longrightarrow>
             val = k @ ''@'' @ d_AppVersion d \<or>
             (val = NamespaceDefault @ ''#'' @ k @ ''@'' @ d_AppVersion d \<and> CHR ''#'' \<notin> set k)"
    using Cons.prems(1,2) by (auto simp: fqfnForFunc_def namespacedName_def)
  show ?case
    using Cons.IH [OF inv] Cons.prems(2,3) by simp
qed

lemma FQFN_current:
  "fqfnsCurrent d \<Longrightarrow>
   snd (FQFN d k) = (case fqfnLoop d (d_Runnables d) Map.empty k of
                       None \<Rightarrow> Inl (''fn '' @ k @ '' does not exist'')
                     | Some v \<Rightarrow> Inr v)"
  by (auto simp: fqfnsCurrent_def FQFN_def calculateFQFNs_def Let_def split: option.splits)

text \<open>
  Claim C6 as stated fails: in the document of the one default-namespace function
  \<open>fetch\<close> with appVersion v0.1.0, the lookup of \<open>default#fetch@v0.1.0\<close> finds nothing;
  the key that is registered beside \<open>fetch\<close> is \<open>default#fetch\<close>.
\<close>

theorem fqfn_versioned_key_counterexample:
  "snd (FQFN (demoScheduleDoc []) ''default#fetch@v0.1.0'') =
     Inl ''fn default#fetch@v0.1.0 does not exist''
   \<and> snd (FQFN (demoScheduleDoc []) ''default#fetch'') = Inr ''default#fetch@v0.1.0''
   \<and> snd (FQFN (demoScheduleDoc []) ''fetch'') = Inr ''default#fetch@v0.1.0''"
  by (simp add: FQFN_def calculateFQFNs_def demoScheduleDoc_def NamespaceDefault_def
        namespacedName_def fqfnForFunc_def Let_def)

text \<open>
  Claim C6 as amended, for a Directive whose cache is unset or current and whose
  runnable names hold no \<open>#\<close>. A default-namespace runnable is found under its bare
  name and under \<open>default#name\<close>, both giving \<open>default#name@appVersion\<close>. A runnable of
  another namespace is found under \<open>namespace#name\<close>, and no other key gives its FQFN.
  A name that no runnable registers is answered by the error that names it.
\<close>

theorem fqfn_lookup:
  assumes "fqfnsCurrent d"
    and "\<forall>x \<in> set (d_Runnables d). CHR ''#'' \<notin> set (r_Name x)"
  shows "(r \<in> set (d_Runnables d) \<and> r_Namespace r = NamespaceDefault \<longrightarrow>
            snd (FQFN d (r_Name r)) =
              Inr (NamespaceDefault @ ''#'' @ r_Name r @ ''@'' @ d_AppVersion d) \<and>
            snd (FQFN d (NamespaceDefault @ ''#'' @ r_Name r)) =
              Inr (NamespaceDefault @ ''#'' @ r_Name r @ ''@'' @ d_AppVersion d))
       \<and> (r \<in> set (d_Runnables d) \<and> r_Namespace r \<noteq> NamespaceDefault \<longrightarrow>
            snd (FQFN d (r_Namespace r @ ''#'' @ r_Name r)) =
              Inr (r_Namespace r @ ''#'' @ r_Name r @ ''@'' @ d_AppVersion d) \<and>
            (\<forall>k'. snd (FQFN d k') =
                    Inr (r_Namespace r @ ''#'' @ r_Name r @ ''@'' @ d_AppVersion d) \<longrightarrow>
                  k' = r_Namespace r @ ''#'' @ r_Name r))
       \<and> ((\<forall>x \<in> set (d_Runnables d).
              k \<noteq> r_Namespace x @ ''#'' @ r_Name x \<and>
              (r_Namespace x = NamespaceDefault \<longrightarrow> k \<noteq> r_Name x)) \<longrightarrow>
            snd (FQFN d k) = Inl (''fn '' @ k @ '' does not exist''))"
proof -
  let ?L = "fqfnLoop d (d_Runnables d) Map.empty"
  have a: "r \<in> set (d_Runnables d) \<and> r_Namespace r = NamespaceDefault \<longrightarrow>
            snd (FQFN d (r_Name r)) =
              Inr (NamespaceDefault @ ''#'' @ r_Name r @ ''@'' @ d_AppVersion d) \<and>
            snd (FQFN d (NamespaceDefault @ ''#'' @ r_Name r)) =
              Inr (NamespaceDefault @ ''#'' @ r_Name r @ ''@'' @ d_AppVersion d)"
  proof
    assume r: "r \<in> set (d_Runnables d) \<and> r_Namespace r = NamespaceDefault"
    with assms(2) have nh: "CHR ''#'' \<notin> set (r_Name r)" by blast
    have "?L (r_Name r) = Some (fqfnForFunc d NamespaceDefault (r_Name r))"
      using fqfnLoop_bare [OF nh, of Map.empty d "d_Runnables d"] r by blast
    moreover have "?L (namespacedName r) = Some (fqfnForFunc d (r_Namespace r) (r_Name r))"
      using fqfnLoop_namespaced [OF assms(2), of Map.empty r d] r by blast
    ultimately show "snd (FQFN d (r_Name r)) =
              Inr (NamespaceDefault @ ''#'' @ r_Name r @ ''@'' @ d_AppVersion d) \<and>
            snd (FQFN d (NamespaceDefault @ ''#'' @ r_Name r)) =
              Inr (NamespaceDefault @ ''#'' @ r_Name r @ ''@'' @ d_AppVersion d)"
      using r by (simp add: FQFN_current [OF assms(1)] fqfnForFunc_def namespacedName_def)
  qed
  have b: "r \<in> set (d_Runnables d) \<and> r_Namespace r \<noteq> NamespaceDefault \<longrightarrow>
            snd (FQFN d (r_Namespace r @ ''#'' @ r_Name r)) =
              Inr (r_Namespace r @ ''#'' @ r_Name r @ ''@'' @ d_AppVersion d) \<and>
            (\<forall>k'. snd (FQFN d k') =
                    Inr (r_Namespace r @ ''#'' @ r_Name r @ ''@'' @ d_AppVersion d) \<longrightarrow>
                  k' = r_Namespace r @ ''#'' @ r_Name r)"
  proof
    assume r: "r \<in> set (d_Runnables d) \<and> r_Namespace r \<noteq> NamespaceDefault"
    with assms(2) have nh: "CHR ''#'' \<notin> set (r_Name r)" by blast
    have found: "?L (namespacedName r) = Some (fqfnForFunc d (r_Namespace r) (r_Name r))"
      using fqfnLoop_namespaced [OF assms(2), of Map.empty r d] r by blast
    have only: "k' = r_Namespace r @ ''#'' @ r_Name r"
      if "snd (FQFN d k') = Inr (r_Namespace r @ ''#'' @ r_Name r @ ''@'' @ d_AppVersion d)" for k'
    proof -
      from that have L: "?L k' = Some (r_Namespace r @ ''#'' @ r_Name r @ ''@'' @ d_AppVersion d)"
        by (simp add: FQFN_current [OF assms(1)] split: option.splits)
      have "r_Namespace r @ ''#'' @ r_Name r @ ''@'' @ d_AppVersion d = k' @ ''@'' @ d_AppVersion d \<or>
            (r_Namespace r @ ''#'' @ r_Name r @ ''@'' @ d_AppVersion d =
               NamespaceDefault @ ''#'' @ k' @ ''@'' @ d_AppVersion d \<and> CHR ''#'' \<notin> set k')"
        using fqfnLoop_values [of Map.empty d "d_Runnables d" k', OF _ assms(2) L] by simp
      then show ?thesis
      proof
        assume "r_Namespace r @ ''#'' @ r_Name r @ ''@'' @ d_AppVersion d = k' @ ''@'' @ d_AppVersion d"
        then have "(r_Namespace r @ ''#'' @ r_Name r) @ (''@'' @ d_AppVersion d) =
                   k' @ (''@'' @ d_AppVersion d)" by simp
        then show ?thesis by (simp only: append_same_eq)
      next
        assume c: "r_Namespace r @ ''#'' @ r_Name r @ ''@'' @ d_AppVersion d =
               NamespaceDefault @ ''#'' @ k' @ ''@'' @ d_AppVersion d \<and> CHR ''#'' \<notin> set k'"
        then have "(r_Namespace r @ ''#'' @ r_Name r) @ (''@'' @ d_AppVersion d) =
                   (NamespaceDefault @ ''#'' @ k') @ (''@'' @ d_AppVersion d)" by simp
        then have "r_Namespace r @ ''#'' @ r_Name r = NamespaceDefault @ ''#'' @ k'"
          by (simp only: append_same_eq)
        with nh c have "r_Namespace r = NamespaceDefault"
          using hash_split [of "r_Name r" k' "r_Namespace r" NamespaceDefault] by blast
        with r show ?thesis by simp
      qed
    qed
    from found only show "snd (FQFN d (r_Namespace r @ ''#'' @ r_Name r)) =
              Inr (r_Namespace r @ ''#'' @ r_Name r @ ''@'' @ d_AppVersion d) \<and>
            (\<forall>k'. snd (FQFN d k') =
                    Inr (r_Namespace r @ ''#'' @ r_Name r @ ''@'' @ d_AppVersion d) \<longrightarrow>
                  k' = r_Namespace r @ ''#'' @ r_Name r)"
      by (simp add: FQFN_current [OF assms(1)] fqfnForFunc_def namespacedName_def)
  qed
  have c: "(\<forall>x \<in> set (d_Runnables d).
              k \<noteq> r_Namespace x @ ''#'' @ r_Name x \<and>
              (r_Namespace x = NamespaceDefault \<longrightarrow> k \<noteq> r_Name x)) \<longrightarrow>
            snd (FQFN d k) = Inl (''fn '' @ k @ '' does not exist'')"
  proof
    assume "\<forall>x \<in> set (d_Runnables d).
              k \<noteq> r_Namespace x @ ''#'' @ r_Name x \<and>
              (r_Namespace x = NamespaceDefault \<longrightarrow> k \<noteq> r_Name x)"
    then have "?L k = None"
      using fqfnLoop_unknown [of "d_Runnables d" k d Map.empty] by (simp add: namespacedName_def)
    then show "snd (FQFN d k) = Inl (''fn '' @ k @ '' does not exist'')"
      by (simp add: FQFN_current [OF assms(1)])
  qed
  from a b c show ?thesis by blast
qed

theorem fqfn_lookup_witness:
  "fqfnsCurrent (demoRunnablesDoc [\<lparr>r_Name = ''fetch'', r_Namespace = ''default''\<rparr>,
                                   \<lparr>r_Name = ''store'', r_Namespace = ''db''\<rparr>])
   \<and> snd (FQFN (demoRunnablesDoc [\<lparr>r_Name = ''fetch'', r_Namespace = ''default''\<rparr>,
                                   \<lparr>r_Name = ''store'', r_Namespace = ''db''\<rparr>]) ''fetch'') =
       Inr ''default#fetch@v0.1.0''
   \<and> snd (FQFN (demoRunnablesDoc [\<lparr>r_Name = ''fetch'', r_Namespace = ''default''\<rparr>,
                                   \<lparr>r_Name = ''store'', r_Namespace = ''db''\<rparr>]) ''default#fetch'') =
       Inr ''default#fetch@v0.1.0''
   \<and> snd (FQFN (demoRunnablesDoc [\<lparr>r_Name = ''fetch'', r_Namespace = ''default''\<rparr>,
                                   \<lparr>r_Name = ''store'', r_Namespace = ''db''\<rparr>]) ''db#store'') =
       Inr ''db#store@v0.1.0''
   \<and> snd (FQFN (demoRunnablesDoc [\<lparr>r_Name = ''fetch'', r_Namespace = ''default''\<rparr>,
                                   \<lparr>r_Name = ''store'', r_Namespace = ''db''\<rparr>]) ''store'') =
       Inl ''fn store does not exist''"
  using fqfn_lookup [where d = "demoRunnablesDoc [\<lparr>r_Name = ''fetch'', r_Namespace = ''default''\<rparr>,
                                   \<lparr>r_Name = ''store'', r_Namespace = ''db''\<rparr>]"
          and r = "\<lparr>r_Name = ''fetch'', r_Namespace = ''default''\<rparr>" and k = "''store''"]
        fqfn_lookup [where d = "demoRunnablesDoc [\<lparr>r_Name = ''fetch'', r_Namespace = ''default''\<rparr>,
                                   \<lparr>r_Name = ''store'', r_Namespace = ''db''\<rparr>]"
          and r = "\<lparr>r_Name = ''store'', r_Namespace = ''db''\<rparr>" and k = "''store''"]
  by (simp add: demoRunnablesDoc_def fqfnsCurrent_def NamespaceDefault_def)

section \<open>Duplicate runnables\<close>

lemma fst_validateRunnable:
  "fst (validateRunnable i f (fns, p)) =
     (if fns (namespacedName f) \<noteq> None \<or> fns (r_Name f) \<noteq> None \<or> r_Name f = [] then fns
      else if r_Namespace f = NamespaceDefault
      then fns(r_Name f \<mapsto> True, namespacedName f \<mapsto> True)
      else fns(namespacedName f \<mapsto> True))"
  by (simp add: validateRunnable_def Let_def)

lemma snd_validateRunnable:
  "snd (validateRunnable i f (fns, [])) =
     (if fns (namespacedName f) \<noteq> None \<or> fns (r_Name f) \<noteq> None
      then [DuplicateFn (namespacedName f)]
      else if r_Name f = [] then [FnMissingName i]
      else if r_Namespace f = [] then [FnMissingNamespace i] else [])"
  by (simp add: validateRunnable_def Let_def add_def)

lemma validateRunnables_snoc:
  "validateRunnables i (rs @ [f]) st = validateRunnable (i + length rs) f (validateRunnables i rs st)"
  by (induction rs arbitrary: i st) simp_all

lemma validateRunnables_positions:
  "snd (validateRunnables 0 rs (Map.empty, [])) =
     concat (map (\<lambda>i. snd (validateRunnable i (rs ! i)
                           (fst (validateRunnables 0 (take i rs) (Map.empty, [])), [])))
               [0..<length rs])"
proof (induction rs rule: rev_induct)
  case Nil
  then show ?case by simp
next
  case (snoc f rs)
  let ?F = "\<lambda>i. snd (validateRunnable i (rs ! i)
                      (fst (validateRunnables 0 (take i rs) (Map.empty, [])), []))"
  let ?G = "\<lambda>i. snd (validateRunnable i ((rs @ [f]) ! i)
                      (fst (validateRunnables 0 (take i (rs @ [f])) (Map.empty, [])), []))"
  obtain fns q where q: "validateRunnables 0 rs (Map.empty, []) = (fns, q)"
    by (cases "validateRunnables 0 rs (Map.empty, [])")
  have A: "snd (validateRunnables 0 (rs @ [f]) (Map.empty, [])) =
        q @ snd (validateRunnable (length rs) f (fns, []))"
    using q validateRunnable_app [of "length rs" f fns q] by (simp add: validateRunnables_snoc)
  have B: "map ?G [0..<length rs] = map ?F [0..<length rs]"
    by (rule map_cong) (simp_all add: nth_append)
  have C: "?G (length rs) = snd (validateRunnable (length rs) f (fns, []))"
    using q by simp
  have D: "q = concat (map ?F [0..<length rs])"
    using snoc.IH q by simp
  have "concat (map ?G [0..<length (rs @ [f])]) = concat (map ?G [0..<length rs]) @ ?G (length rs)"
    by (simp del: take_append)
  also have "\<dots> = concat (map ?F [0..<length rs]) @ snd (validateRunnable (length rs) f (fns, []))"
    by (simp only: B C)
  also have "\<dots> = snd (validateRunnables 0 (rs @ [f]) (Map.empty, []))"
    by (simp only: A D [symmetric])
  finally show ?case by (rule sym)
qed

lemma runnableProblems_positions:
  "runnableProblems d = concat (map (positionProblems d) [0..<length (d_Runnables d)])"
  unfolding runnableProblems_def positionProblems_def fnsBefore_def
  by (rule validateRunnables_positions)

lemma fnsBefore_Suc:
  "i < length (d_Runnables d) \<Longrightarrow>
   fnsBefore d (Suc i) = fst (validateRunnable i (d_Runnables d ! i) (fnsBefore d i, []))"
proof -
  assume i: "i < length (d_Runnables d)"
  obtain fns q where q: "validateRunnables 0 (take i (d_Runnables d)) (Map.empty, []) = (fns, q)"
    by (cases "validateRunnables 0 (take i (d_Runnables d)) (Map.empty, [])")
  have "fst (validateRunnable i (d_Runnables d ! i) (fns, q)) =
        fst (validateRunnable i (d_Runnables d ! i) (fns, []))"
    by (simp add: fst_validateRunnable)
  then show ?thesis
    using i q by (simp add: fnsBefore_def take_Suc_conv_app_nth validateRunnables_snoc)
qed

lemma reportedDuplicate_iff:
  "reportedDuplicate d i \<longleftrightarrow>
     fnsBefore d i (namespacedName (d_Runnables d ! i)) \<noteq> None \<or>
     fnsBefore d i (r_Name (d_Runnables d ! i)) \<noteq> None"
  by (simp add: reportedDuplicate_def positionProblems_def snd_validateRunnable)

lemma dom_fnsBefore:
  "i \<le> length (d_Runnables d) \<Longrightarrow>
   dom (fnsBefore d i) = (\<Union>k \<in> {k. k < i \<and> registers d k}. keysOf (d_Runnables d ! k))"
proof (induction i)
  case 0
  then show ?case by (simp add: fnsBefore_def)
next
  case (Suc i)
  then have i: "i < length (d_Runnables d)" by simp
  have split: "{k. k < Suc i \<and> registers d k} =
               {k. k < i \<and> registers d k} \<union> (if registers d i then {i} else {})"
    by (auto simp: less_Suc_eq)
  have step: "dom (fnsBefore d (Suc i)) =
              dom (fnsBefore d i) \<union> (if registers d i then keysOf (d_Runnables d ! i) else {})"
    unfolding fnsBefore_Suc [OF i] fst_validateRunnable registers_def reportedDuplicate_iff keysOf_def
    by auto
  show ?case
    using Suc.IH i by (simp only: step split) auto
qed

lemma origin_scheduleProblems:
  "p \<in> set (scheduleProblems fns i s) \<Longrightarrow> originOf p = FromSchedule \<or> originOf p = FromStep"
  by (auto simp: scheduleProblems_eq origin_stepProblems split: if_splits)

lemma filter_isDuplicateFn_empty:
  "(\<And>p. p \<in> set ps \<Longrightarrow> originOf p \<noteq> FromRunnables) \<Longrightarrow> filter isDuplicateFn ps = []"
proof (induction ps)
  case Nil
  then show ?case by simp
next
  case (Cons p ps)
  have "originOf p \<noteq> FromRunnables" using Cons.prems by simp
  then have "\<not> isDuplicateFn p" by (cases p) simp_all
  then show ?case using Cons by simp
qed

text \<open>
  Claim C5 as stated fails: the runnable \<open>foo\<close> of the namespace \<open>db\<close> followed by the
  runnable \<open>foo\<close> of the default namespace is reported nowhere, while the same two in
  the other order give one duplicate problem.
\<close>

theorem duplicate_order_counterexample:
  "collect acceptAll (demoRunnablesDoc [\<lparr>r_Name = ''foo'', r_Namespace = ''db''\<rparr>,
                                        \<lparr>r_Name = ''foo'', r_Namespace = ''default''\<rparr>]) = []
   \<and> collect acceptAll (demoRunnablesDoc [\<lparr>r_Name = ''foo'', r_Namespace = ''default''\<rparr>,
                                          \<lparr>r_Name = ''foo'', r_Namespace = ''db''\<rparr>]) =
       [DuplicateFn ''db#foo'']"
  by (simp add: acceptAll_def collect_def validateHeader_def validateRunnable_def
        namespacedName_def NamespaceDefault_def demoRunnablesDoc_def add_def Let_def)

text \<open>
  Claim C5 as amended. The problems of the runnables are those of the positions, in
  order, and a position gives at most one duplicate problem. Position \<open>i\<close> is
  reported as a duplicate exactly when its \<open>namespace#name\<close> or its bare name is a key
  of an earlier position that registers: one that has a name and is not itself
  reported; the keys of a runnable are its \<open>namespace#name\<close> and, in the default
  namespace, its bare name too. Two runnables that are the whole sequence, share
  \<open>namespace#name\<close> and have a name give exactly one duplicate problem.
\<close>

theorem duplicate_once_per_position:
  "runnableProblems d = concat (map (positionProblems d) [0..<length (d_Runnables d)])
   \<and> (\<forall>i < length (d_Runnables d).
        (reportedDuplicate d i \<longleftrightarrow>
           (\<exists>k < i. registers d k \<and>
              (namespacedName (d_Runnables d ! i) \<in> keysOf (d_Runnables d ! k) \<or>
               r_Name (d_Runnables d ! i) \<in> keysOf (d_Runnables d ! k)))) \<and>
        filter isDuplicateFn (positionProblems d i) =
          (if reportedDuplicate d i then [DuplicateFn (namespacedName (d_Runnables d ! i))]
           else []))
   \<and> (d_Runnables d = [a, b] \<and> r_Namespace a = r_Namespace b \<and> r_Name a = r_Name b \<and>
      r_Name a \<noteq> [] \<longrightarrow>
        filter isDuplicateFn (collect IsValid d) = [DuplicateFn (namespacedName a)])"
proof -
  have one: "\<forall>i < length (d_Runnables d).
        (reportedDuplicate d i \<longleftrightarrow>
           (\<exists>k < i. registers d k \<and>
              (namespacedName (d_Runnables d ! i) \<in> keysOf (d_Runnables d ! k) \<or>
               r_Name (d_Runnables d ! i) \<in> keysOf (d_Runnables d ! k)))) \<and>
        filter isDuplicateFn (positionProblems d i) =
          (if reportedDuplicate d i then [DuplicateFn (namespacedName (d_Runnables d ! i))]
           else [])"
  proof (intro allI impI conjI)
    fix i assume i: "i < length (d_Runnables d)"
    have "reportedDuplicate d i \<longleftrightarrow>
            namespacedName (d_Runnables d ! i) \<in> dom (fnsBefore d i) \<or>
            r_Name (d_Runnables d ! i) \<in> dom (fnsBefore d i)"
      by (auto simp: reportedDuplicate_iff)
    also have "\<dots> \<longleftrightarrow> (\<exists>k < i. registers d k \<and>
              (namespacedName (d_Runnables d ! i) \<in> keysOf (d_Runnables d ! k) \<or>
               r_Name (d_Runnables d ! i) \<in> keysOf (d_Runnables d ! k)))"
      using i by (auto simp: dom_fnsBefore)
    finally show "reportedDuplicate d i \<longleftrightarrow> (\<exists>k < i. registers d k \<and>
              (namespacedName (d_Runnables d ! i) \<in> keysOf (d_Runnables d ! k) \<or>
               r_Name (d_Runnables d ! i) \<in> keysOf (d_Runnables d ! k)))" .
    show "filter isDuplicateFn (positionProblems d i) =
          (if reportedDuplicate d i then [DuplicateFn (namespacedName (d_Runnables d ! i))]
           else [])"
      by (simp add: reportedDuplicate_def positionProblems_def snd_validateRunnable)
  qed
  have two: "d_Runnables d = [a, b] \<and> r_Namespace a = r_Namespace b \<and> r_Name a = r_Name b \<and>
      r_Name a \<noteq> [] \<longrightarrow>
        filter isDuplicateFn (collect IsValid d) = [DuplicateFn (namespacedName a)]"
  proof
    assume ab: "d_Runnables d = [a, b] \<and> r_Namespace a = r_Namespace b \<and> r_Name a = r_Name b \<and>
      r_Name a \<noteq> []"
    have h: "filter isDuplicateFn (headerProblems IsValid d) = []"
      using origin_headerProblems [of _ IsValid d] by (intro filter_isDuplicateFn_empty) auto
    have hs: "filter isDuplicateFn (concat (map (handlerProblems (knownFns d)) (d_Handlers d))) = []"
      using origin_handlerProblems by (intro filter_isDuplicateFn_empty) fastforce
    have ss: "filter isDuplicateFn
                (concat (map (\<lambda>k. scheduleProblems (knownFns d) k (d_Schedules d ! k))
                          [0..<length (d_Schedules d)])) = []"
    proof (intro filter_isDuplicateFn_empty)
      fix p assume "p \<in> set (concat (map (\<lambda>k. scheduleProblems (knownFns d) k (d_Schedules d ! k))
                          [0..<length (d_Schedules d)]))"
      then obtain k where "p \<in> set (scheduleProblems (knownFns d) k (d_Schedules d ! k))" by auto
      then have "originOf p = FromSchedule \<or> originOf p = FromStep"
        by (rule origin_scheduleProblems)
      then show "originOf p \<noteq> FromRunnables" by auto
    qed
    have nn: "namespacedName b = namespacedName a"
      using ab by (simp add: namespacedName_def)
    from ab have rs: "d_Runnables d = [a, b]" and na: "r_Name a \<noteq> []" and nb: "r_Name b \<noteq> []"
      by auto
    have rr: "filter isDuplicateFn (runnableProblems d) = [DuplicateFn (namespacedName a)]"
      using rs na nb nn
      by (simp add: runnableProblems_def validateRunnable_def Let_def add_def)
    show "filter isDuplicateFn (collect IsValid d) = [DuplicateFn (namespacedName a)]"
      by (simp add: collect_eq h hs ss rr)
  qed
  from runnableProblems_positions [of d] one two show ?thesis by blast
qed

theorem duplicate_once_per_position_witness:
  "reportedDuplicate (demoRunnablesDoc [\<lparr>r_Name = ''foo'', r_Namespace = ''default''\<rparr>,
                                         \<lparr>r_Name = ''foo'', r_Namespace = ''db''\<rparr>]) 1
   \<and> \<not> reportedDuplicate (demoRunnablesDoc [\<lparr>r_Name = ''foo'', r_Namespace = ''db''\<rparr>,
                                           \<lparr>r_Name = ''foo'', r_Namespace = ''default''\<rparr>]) 1
   \<and> filter isDuplicateFn
       (collect acceptAll (demoRunnablesDoc [\<lparr>r_Name = ''foo'', r_Namespace = ''db''\<rparr>,
                                            \<lparr>r_Name = ''foo'', r_Namespace = ''db''\<rparr>])) =
       [DuplicateFn ''db#foo'']"
  using duplicate_once_per_position [where d = "demoRunnablesDoc [\<lparr>r_Name = ''foo'', r_Namespace = ''default''\<rparr>,
                                         \<lparr>r_Name = ''foo'', r_Namespace = ''db''\<rparr>]"
          and a = "\<lparr>r_Name = ''foo'', r_Namespace = ''default''\<rparr>"
          and b = "\<lparr>r_Name = ''foo'', r_Namespace = ''db''\<rparr>" and IsValid = acceptAll]
        duplicate_once_per_position [where d = "demoRunnablesDoc [\<lparr>r_Name = ''foo'', r_Namespace = ''db''\<rparr>,
                                         \<lparr>r_Name = ''foo'', r_Namespace = ''default''\<rparr>]"
          and a = "\<lparr>r_Name = ''foo'', r_Namespace = ''db''\<rparr>"
          and b = "\<lparr>r_Name = ''foo'', r_Namespace = ''default''\<rparr>" and IsValid = acceptAll]
        duplicate_once_per_position [where d = "demoRunnablesDoc [\<lparr>r_Name = ''foo'', r_Namespace = ''db''\<rparr>,
                                         \<lparr>r_Name = ''foo'', r_Namespace = ''db''\<rparr>]"
          and a = "\<lparr>r_Name = ''foo'', r_Namespace = ''db''\<rparr>"
          and b = "\<lparr>r_Name = ''foo'', r_Namespace = ''db''\<rparr>" and IsValid = acceptAll]
  by (simp add: demoRunnablesDoc_def registers_def reportedDuplicate_def positionProblems_def
        fnsBefore_def validateRunnable_def keysOf_def namespacedName_def NamespaceDefault_def
        Let_def add_def)

section \<open>The available state\<close>

lemma validateStepsFrom_app:
  "validateStepsFrom t n j fns steps (fs, p) =
     (fst (validateStepsFrom t n j fns steps (fs, [])),
      p @ snd (validateStepsFrom t n j fns steps (fs, [])))"
  by (simp add: validateStepsFrom_eq)

lemma addKeys_upd: "addKeys ks (fs(k \<mapsto> True)) = (addKeys ks fs)(k \<mapsto> True)"
proof (induction ks arbitrary: fs)
  case Nil
  show ?case by (simp only: addKeys.simps)
next
  case (Cons a ks)
  have tw: "fs(k \<mapsto> True, a \<mapsto> True) = fs(a \<mapsto> True, k \<mapsto> True)"
    by (cases "a = k") (simp_all add: fun_upd_twist)
  have "addKeys (a # ks) (fs(k \<mapsto> True)) = addKeys ks (fs(a \<mapsto> True, k \<mapsto> True))"
    by (simp only: addKeys.simps tw)
  also have "\<dots> = (addKeys ks (fs(a \<mapsto> True)))(k \<mapsto> True)"
    by (rule Cons.IH)
  finally show ?case by (simp only: addKeys.simps)
qed

lemma checkOnErr_no_dependency: "p \<in> set (checkOnErr t n j oe []) \<Longrightarrow> \<not> isDependencyOn k p"
  by (auto simp: checkOnErr_def Let_def add_def checkCodes_eq split: if_splits)

lemma filter_dependency_id:
  "(\<And>p. p \<in> set ps \<Longrightarrow> \<not> isDependencyOn k p) \<Longrightarrow> filter (\<lambda>p. \<not> isDependencyOn k p) ps = ps"
  by (induction ps) simp_all

lemma dependency_filter_upd:
  "map (\<lambda>d. WithKeyNotAvailable t n j (a_Key d))
     (filter (\<lambda>d. (fs(k \<mapsto> True)) (a_Key d) = None) ds) =
   filter (\<lambda>p. \<not> isDependencyOn k p)
     (map (\<lambda>d. WithKeyNotAvailable t n j (a_Key d)) (filter (\<lambda>d. fs (a_Key d) = None) ds))"
  by (induction ds) auto

lemma fnProblems_upd:
  "fnProblems t n j fns (fs(k \<mapsto> True)) fn =
     filter (\<lambda>p. \<not> isDependencyOn k p) (fnProblems t n j fns fs fn)"
proof -
  let ?Q = "\<lambda>p. \<not> isDependencyOn k p"
  let ?A = "if fns (c_Fn fn) = None then [FnNotExist t n j (c_Fn fn)] else []"
  let ?B = "case snd (ParseWith fn) of Inl e \<Rightarrow> [InvalidWith t n j e] | Inr x \<Rightarrow> []"
  let ?E = "case c_OnErr fn of None \<Rightarrow> [] | Some oe \<Rightarrow> checkOnErr t n j oe []"
  have A: "filter ?Q ?A = ?A" by simp
  have B: "filter ?Q ?B = ?B" by (simp split: sum.splits)
  have E: "filter ?Q ?E = ?E"
    by (rule filter_dependency_id) (auto split: option.splits dest: checkOnErr_no_dependency)
  show ?thesis
    by (simp only: fnProblems_eq filter_append A B E dependency_filter_upd)
qed

lemma fnProblems_upd_fun:
  "fnProblems t n j fns (fs(k \<mapsto> True)) =
     (\<lambda>fn. filter (\<lambda>p. \<not> isDependencyOn k p) (fnProblems t n j fns fs fn))"
  by (rule ext) (rule fnProblems_upd)

lemma stepProblems_upd:
  "stepProblems t n j fns (fs(k \<mapsto> True)) s =
     filter (\<lambda>p. \<not> isDependencyOn k p) (stepProblems t n j fns fs s)"
  by (simp add: stepProblems_eq fnProblems_upd fnProblems_upd_fun filter_concat comp_def)

lemma stateAt_upd: "stateAt steps (fs(k \<mapsto> True)) i = (stateAt steps fs i)(k \<mapsto> True)"
  by (simp only: stateAt_def addKeys_upd)

lemma validateStepsFrom_upd:
  "validateStepsFrom t n j fns steps (fs(k \<mapsto> True), []) =
     ((fst (validateStepsFrom t n j fns steps (fs, [])))(k \<mapsto> True),
      filter (\<lambda>p. \<not> isDependencyOn k p) (snd (validateStepsFrom t n j fns steps (fs, []))))"
proof -
  have "concat (map (\<lambda>i. stepProblems t n (j + i) fns (stateAt steps (fs(k \<mapsto> True)) i) (steps ! i))
                 [0..<length steps]) =
        filter (\<lambda>p. \<not> isDependencyOn k p)
          (concat (map (\<lambda>i. stepProblems t n (j + i) fns (stateAt steps fs i) (steps ! i))
                     [0..<length steps]))"
    by (simp only: stateAt_upd stepProblems_upd filter_concat map_map comp_def)
  then show ?thesis
    by (simp only: validateStepsFrom_eq addKeys_upd fst_conv snd_conv append_Nil)
qed

lemma dom_stateAt:
  "dom (stateAt steps fs i) = dom fs \<union> (\<Union>s \<in> set (take i steps). set (stepKeys s))"
  by (simp add: stateAt_def dom_addKeys)

lemma dependency_fnProblems:
  "WithKeyNotAvailable t' n' j' k \<in> set (fnProblems t n j fns fs fn) \<longleftrightarrow>
     t' = t \<and> n' = n \<and> j' = j \<and> fs k = None \<and>
     k \<in> a_Key ` set (c_DesiredState (fst (ParseWith fn)))"
proof -
  have "WithKeyNotAvailable t' n' j' k \<notin> set (checkOnErr t n j oe [])" for oe
    using checkOnErr_no_dependency [of "WithKeyNotAvailable t' n' j' k" t n j oe k] by auto
  then show ?thesis
    by (auto simp: fnProblems_eq split: sum.splits option.splits)
qed

lemma dependency_stepProblems:
  "WithKeyNotAvailable t' n' j' k \<in> set (stepProblems t n j fns fs s) \<longleftrightarrow>
     t' = t \<and> n' = n \<and> j' = j \<and> fs k = None \<and>
     (\<exists>c \<in> set (callsOf s). k \<in> a_Key ` set (c_DesiredState (fst (ParseWith c))))"
  by (auto simp: stepProblems_eq callsOf_def dependency_fnProblems)

lemma dependency_validateSteps:
  "WithKeyNotAvailable t n i k \<in> set (snd (validateSteps t n steps fs fns [])) \<longleftrightarrow>
     i < length steps \<and> k \<notin> dom (stateAt steps fs i) \<and>
     (\<exists>c \<in> set (callsOf (steps ! i)). k \<in> a_Key ` set (c_DesiredState (fst (ParseWith c))))"
  by (auto simp: validateSteps_eq dependency_stepProblems domIff)

section \<open>Producing a key again\<close>

lemma fnProblems_dom:
  "dom fs = dom fs' \<Longrightarrow> fnProblems t n j fns fs fn = fnProblems t n j fns fs' fn"
proof -
  assume "dom fs = dom fs'"
  then have "(fs x = None) = (fs' x = None)" for x
    by (metis domIff)
  then show ?thesis by (simp add: fnProblems_eq)
qed

lemma stepProblems_dom:
  "dom fs = dom fs' \<Longrightarrow> stepProblems t n j fns fs s = stepProblems t n j fns fs' s"
proof -
  assume d: "dom fs = dom fs'"
  have "fnProblems t n j fns fs = fnProblems t n j fns fs'"
    by (rule ext) (rule fnProblems_dom [OF d])
  then show ?thesis by (simp add: stepProblems_eq)
qed

lemma stepProblems_available:
  assumes "k \<in> dom fs"
  shows "stepProblems t n j fns fs s =
         filter (\<lambda>q. \<not> isDependencyOn k q) (stepProblems t n j fns (fs(k := None)) s)"
proof -
  have "dom fs = dom ((fs(k := None))(k \<mapsto> True))"
    using assms by auto
  then have "stepProblems t n j fns fs s = stepProblems t n j fns ((fs(k := None))(k \<mapsto> True)) s"
    by (rule stepProblems_dom)
  then show ?thesis by (simp only: stepProblems_upd)
qed

lemma produced_key_available:
  assumes "i < i'" "i' \<le> length steps" "k \<in> set (stepKeys (steps ! i))"
  shows "k \<in> dom (stateAt steps fs i')"
proof -
  from assms(1,2) have "i < length (take i' steps)" by simp
  then have "take i' steps ! i \<in> set (take i' steps)" by (rule nth_mem)
  with assms(1) have "steps ! i \<in> set (take i' steps)" by simp
  with assms(3) show ?thesis
    by (auto simp: dom_stateAt)
qed

text \<open>
  Claim C10. Every step adds the keys it produces to the state, so the state on
  entry to a step holds the seed and the keys of all earlier steps, and the state
  at the end holds the keys of all steps; a key produced by a step is in the state
  of every later step. A step that is reached while \<open>k\<close> is in the state, whether it
  produces \<open>k\<close> again or not, reports what it would report without \<open>k\<close> in the
  state, less the dependency defects on \<open>k\<close>, and \<open>k\<close> is still in the state after
  it. No step after the one that produced \<open>k\<close> reports a binding that refers to
  \<open>k\<close>. The same holds for a key of the seed: validating from a state that holds
  \<open>k\<close> gives the problems of validating without it, less the dependency defects on
  \<open>k\<close>, the key stays to the end and no binding that refers to it is reported.
\<close>

theorem redefinition_no_defect:
  "validateStep t n j fns s (fs, p) = (addKeys (stepKeys s) fs, p @ stepProblems t n j fns fs s)
   \<and> validateSteps t n steps fs fns [] =
       (stateAt steps fs (length steps),
        concat (map (\<lambda>i. stepProblems t n i fns (stateAt steps fs i) (steps ! i))
                  [0..<length steps]))
   \<and> (\<forall>i. dom (stateAt steps fs i) = dom fs \<union> (\<Union>s \<in> set (take i steps). set (stepKeys s)))
   \<and> (\<forall>i i'. i < i' \<and> i' \<le> length steps \<and> k \<in> set (stepKeys (steps ! i)) \<longrightarrow>
         k \<in> dom (stateAt steps fs i'))
   \<and> (\<forall>i < length steps. k \<in> dom (stateAt steps fs i) \<longrightarrow>
         stepProblems t n i fns (stateAt steps fs i) (steps ! i) =
           filter (\<lambda>q. \<not> isDependencyOn k q)
             (stepProblems t n i fns ((stateAt steps fs i)(k := None)) (steps ! i)) \<and>
         k \<in> dom (stateAt steps fs (Suc i)))
   \<and> (\<forall>i i'. i < i' \<and> i' < length steps \<and> k \<in> set (stepKeys (steps ! i)) \<longrightarrow>
         WithKeyNotAvailable t n i' k \<notin> set (snd (validateSteps t n steps fs fns [])))
   \<and> snd (validateSteps t n steps (fs(k \<mapsto> True)) fns []) =
       filter (\<lambda>p. \<not> isDependencyOn k p) (snd (validateSteps t n steps fs fns []))
   \<and> fst (validateSteps t n steps (fs(k \<mapsto> True)) fns []) =
       (fst (validateSteps t n steps fs fns []))(k \<mapsto> True)
   \<and> (k \<in> dom fs \<longrightarrow>
        k \<in> dom (fst (validateSteps t n steps fs fns p)) \<and>
        (\<forall>i. WithKeyNotAvailable t n i k \<notin> set (snd (validateSteps t n steps fs fns []))))"
proof -
  have s1: "validateStep t n j fns s (fs, p) =
            (addKeys (stepKeys s) fs, p @ stepProblems t n j fns fs s)"
    by (rule validateStep_eq)
  have s2: "validateSteps t n steps fs fns [] =
       (stateAt steps fs (length steps),
        concat (map (\<lambda>i. stepProblems t n i fns (stateAt steps fs i) (steps ! i))
                  [0..<length steps]))"
    by (simp add: validateSteps_eq stateAt_def)
  have s3: "\<forall>i. dom (stateAt steps fs i) = dom fs \<union> (\<Union>s \<in> set (take i steps). set (stepKeys s))"
    by (simp add: dom_stateAt)
  have s4: "\<forall>i i'. i < i' \<and> i' \<le> length steps \<and> k \<in> set (stepKeys (steps ! i)) \<longrightarrow>
         k \<in> dom (stateAt steps fs i')"
    using produced_key_available [of _ _ steps k fs] by blast
  have s5: "\<forall>i < length steps. k \<in> dom (stateAt steps fs i) \<longrightarrow>
         stepProblems t n i fns (stateAt steps fs i) (steps ! i) =
           filter (\<lambda>q. \<not> isDependencyOn k q)
             (stepProblems t n i fns ((stateAt steps fs i)(k := None)) (steps ! i)) \<and>
         k \<in> dom (stateAt steps fs (Suc i))"
  proof (intro allI impI conjI)
    fix i assume i: "i < length steps" and k: "k \<in> dom (stateAt steps fs i)"
    show "stepProblems t n i fns (stateAt steps fs i) (steps ! i) =
           filter (\<lambda>q. \<not> isDependencyOn k q)
             (stepProblems t n i fns ((stateAt steps fs i)(k := None)) (steps ! i))"
      using k by (rule stepProblems_available)
    have "set (take i steps) \<subseteq> set (take (Suc i) steps)"
      by (rule set_take_subset_set_take) simp
    with k show "k \<in> dom (stateAt steps fs (Suc i))"
      unfolding dom_stateAt by blast
  qed
  have s6: "\<forall>i i'. i < i' \<and> i' < length steps \<and> k \<in> set (stepKeys (steps ! i)) \<longrightarrow>
         WithKeyNotAvailable t n i' k \<notin> set (snd (validateSteps t n steps fs fns []))"
  proof (intro allI impI)
    fix i i' assume h: "i < i' \<and> i' < length steps \<and> k \<in> set (stepKeys (steps ! i))"
    then have "k \<in> dom (stateAt steps fs i')"
      using produced_key_available [of i i' steps k fs] by simp
    then show "WithKeyNotAvailable t n i' k \<notin> set (snd (validateSteps t n steps fs fns []))"
      by (simp add: dependency_validateSteps)
  qed
  have a: "snd (validateSteps t n steps (fs(k \<mapsto> True)) fns []) =
     filter (\<lambda>p. \<not> isDependencyOn k p) (snd (validateSteps t n steps fs fns []))"
    and b: "fst (validateSteps t n steps (fs(k \<mapsto> True)) fns []) =
       (fst (validateSteps t n steps fs fns []))(k \<mapsto> True)"
    by (simp_all add: validateSteps_def validateStepsFrom_upd)
  have c: "k \<in> dom fs \<longrightarrow>
        k \<in> dom (fst (validateSteps t n steps fs fns p)) \<and>
        (\<forall>i. WithKeyNotAvailable t n i k \<notin> set (snd (validateSteps t n steps fs fns [])))"
  proof
    assume k: "k \<in> dom fs"
    have "dom fs \<subseteq> dom (fst (validateSteps t n steps fs fns p))"
      by (simp add: validateSteps_eq dom_addKeys)
    moreover have "\<forall>i. WithKeyNotAvailable t n i k \<notin> set (snd (validateSteps t n steps fs fns []))"
      using k by (simp add: dependency_validateSteps dom_stateAt)
    ultimately show "k \<in> dom (fst (validateSteps t n steps fs fns p)) \<and>
        (\<forall>i. WithKeyNotAvailable t n i k \<notin> set (snd (validateSteps t n steps fs fns [])))"
      using k by blast
  qed
  from s1 s2 s3 s4 s5 s6 a b c show ?thesis by (intro conjI)
qed

theorem redefinition_no_defect_witness:
  "(1::nat) < 2 \<and> (2::nat) < length [fnStep (plainFn ''fetch''), fnStep (plainFn ''fetch''),
                       fnStep ((plainFn ''fetch'')\<lparr>c_With := [''x: fetch'']\<rparr>)]
   \<and> ''fetch'' \<in> set (stepKeys ([fnStep (plainFn ''fetch''), fnStep (plainFn ''fetch''),
                       fnStep ((plainFn ''fetch'')\<lparr>c_With := [''x: fetch'']\<rparr>)] ! 0))
   \<and> ''fetch'' \<in> set (stepKeys ([fnStep (plainFn ''fetch''), fnStep (plainFn ''fetch''),
                       fnStep ((plainFn ''fetch'')\<lparr>c_With := [''x: fetch'']\<rparr>)] ! 1))
   \<and> ''fetch'' \<in> dom (stateAt [fnStep (plainFn ''fetch''), fnStep (plainFn ''fetch''),
                       fnStep ((plainFn ''fetch'')\<lparr>c_With := [''x: fetch'']\<rparr>)] Map.empty 1)
   \<and> ''fetch'' \<in> dom (stateAt [fnStep (plainFn ''fetch''), fnStep (plainFn ''fetch''),
                       fnStep ((plainFn ''fetch'')\<lparr>c_With := [''x: fetch'']\<rparr>)] Map.empty 3)
   \<and> WithKeyNotAvailable executableTypeHandler ''GET /x'' 2 ''fetch'' \<notin>
       set (snd (validateSteps executableTypeHandler ''GET /x''
                  [fnStep (plainFn ''fetch''), fnStep (plainFn ''fetch''),
                   fnStep ((plainFn ''fetch'')\<lparr>c_With := [''x: fetch'']\<rparr>)]
                  Map.empty [''fetch'' \<mapsto> True] []))
   \<and> validateSteps executableTypeHandler ''GET /x''
        [fnStep (plainFn ''fetch''), fnStep (plainFn ''fetch''),
         fnStep ((plainFn ''fetch'')\<lparr>c_With := [''x: fetch'']\<rparr>)]
        Map.empty [''fetch'' \<mapsto> True] [] = ([''fetch'' \<mapsto> True], [])
   \<and> ''fetch'' \<in> dom [''fetch'' \<mapsto> True]
   \<and> WithKeyNotAvailable executableTypeSchedule ''tick'' 1 ''fetch'' \<notin>
       set (snd (validateSteps executableTypeSchedule ''tick''
        [fnStep (plainFn ''fetch''), fnStep ((plainFn ''fetch'')\<lparr>c_With := [''x: fetch'']\<rparr>)]
        [''fetch'' \<mapsto> True] [''fetch'' \<mapsto> True] []))"
proof -
  let ?steps = "[fnStep (plainFn ''fetch''), fnStep (plainFn ''fetch''),
                 fnStep ((plainFn ''fetch'')\<lparr>c_With := [''x: fetch'']\<rparr>)]"
  have k0: "''fetch'' \<in> set (stepKeys (?steps ! 0))" and k1: "''fetch'' \<in> set (stepKeys (?steps ! 1))"
    by (simp_all add: stepKeys_def fnStep_def plainFn_def IsFn_def fnKey_def)
  have len: "(2::nat) < length ?steps" by simp
  note t = redefinition_no_defect [where steps = ?steps and k = "''fetch''" and fs = Map.empty
      and t = executableTypeHandler and n = "''GET /x''" and fns = "[''fetch'' \<mapsto> True]"]
  note s4 = t [THEN conjunct2, THEN conjunct2, THEN conjunct2, THEN conjunct1, rule_format]
  note s6 = t [THEN conjunct2, THEN conjunct2, THEN conjunct2, THEN conjunct2, THEN conjunct2,
               THEN conjunct1, rule_format]
  have a1: "''fetch'' \<in> dom (stateAt ?steps Map.empty 1)"
    using s4 [of 0 1] k0 by simp
  have a3: "''fetch'' \<in> dom (stateAt ?steps Map.empty 3)"
    using s4 [of 1 3] k1 by simp
  have nd: "WithKeyNotAvailable executableTypeHandler ''GET /x'' 2 ''fetch'' \<notin>
       set (snd (validateSteps executableTypeHandler ''GET /x'' ?steps
                  Map.empty [''fetch'' \<mapsto> True] []))"
    using s6 [of 1 2] k1 by simp
  have ev: "validateSteps executableTypeHandler ''GET /x'' ?steps
              Map.empty [''fetch'' \<mapsto> True] [] = ([''fetch'' \<mapsto> True], [])"
    by (simp add: validateSteps_def validateStep_def validateFn_def ParseWith_def Split_def
          fnStep_def plainFn_def IsFn_def IsGroup_def IsForEach_def add_def Let_def)
  have seeded: "WithKeyNotAvailable executableTypeSchedule ''tick'' 1 ''fetch'' \<notin>
       set (snd (validateSteps executableTypeSchedule ''tick''
        [fnStep (plainFn ''fetch''), fnStep ((plainFn ''fetch'')\<lparr>c_With := [''x: fetch'']\<rparr>)]
        [''fetch'' \<mapsto> True] [''fetch'' \<mapsto> True] []))"
    using redefinition_no_defect [where k = "''fetch''" and fs = "[''fetch'' \<mapsto> True]"
      and t = executableTypeSchedule and n = "''tick''" and fns = "[''fetch'' \<mapsto> True]"
      and p = "[]"
      and steps = "[fnStep (plainFn ''fetch''), fnStep ((plainFn ''fetch'')\<lparr>c_With := [''x: fetch'']\<rparr>)]",
      THEN conjunct2, THEN conjunct2, THEN conjunct2, THEN conjunct2, THEN conjunct2,
      THEN conjunct2, THEN conjunct2, THEN conjunct2]
    by simp
  from k0 k1 a1 a3 nd ev seeded show ?thesis by simp
qed

section \<open>Bindings and the keys they may refer to\<close>

lemma parseLoop_ok:
  "\<forall>w \<in> set ws. length (Split w '': '') = 2 \<Longrightarrow> i + length ws \<le> length ds \<Longrightarrow>
   parseLoop ws i ds = (take i ds @ map aliasOf ws @ drop (i + length ws) ds, None)"
proof (induction ws arbitrary: i ds)
  case Nil
  then show ?case by simp
next
  case (Cons w ws)
  let ?ds = "ds[i := aliasOf w]"
  from Cons.prems have i: "i < length ds" by simp
  have "parseLoop (w # ws) i ds = parseLoop ws (Suc i) ?ds"
    using Cons.prems(1) by (simp add: Let_def aliasOf_def)
  also have "\<dots> = (take (Suc i) ?ds @ map aliasOf ws @ drop (Suc i + length ws) ?ds, None)"
    using Cons.prems by (intro Cons.IH) simp_all
  also have "take (Suc i) ?ds = take i ds @ [aliasOf w]"
    using i by (simp add: take_Suc_conv_app_nth)
  also have "drop (Suc i + length ws) ?ds = drop (i + length (w # ws)) ds"
    by simp
  finally show ?case by simp
qed

lemma ParseWith_ok:
  assumes "c_DesiredState c = []" and "\<forall>w \<in> set (c_With c). length (Split w '': '') = 2"
  shows "c_DesiredState (fst (ParseWith c)) = map aliasOf (c_With c)"
  using assms parseLoop_ok [of "c_With c" 0 "replicate (length (c_With c)) zeroAlias"]
  by (simp add: ParseWith_def)

lemma validateSteps_app:
  "validateSteps t n steps fs fns p =
     (fst (validateSteps t n steps fs fns []), p @ snd (validateSteps t n steps fs fns []))"
  by (simp add: validateSteps_eq)

lemma origin_validateSteps:
  "p \<in> set (snd (validateSteps t n steps fs fns [])) \<Longrightarrow> originOf p = FromStep"
  by (auto simp: validateSteps_eq origin_stepProblems)

lemma dom_primeState: "dom (primeState kvs m) = dom m \<union> fst ` set kvs"
proof (induction kvs arbitrary: m)
  case Nil
  then show ?case by simp
next
  case (Cons kv kvs)
  obtain k v where kv: "kv = (k, v)" by (cases kv)
  have "dom (primeState (kv # kvs) m) = dom (m(k \<mapsto> True)) \<union> fst ` set kvs"
    by (simp only: kv primeState.simps Cons.IH)
  then show ?case by (auto simp: kv)
qed

lemma handler_step_problems:
  assumes "h_Steps h \<noteq> []"
  shows "{p \<in> set (handlerProblems fns h). originOf p = FromStep} =
         set (snd (validateSteps executableTypeHandler
                     (i_Method (h_Input h) @ '' '' @ i_Resource (h_Input h))
                     (h_Steps h) Map.empty fns []))"
proof -
  let ?V = "validateSteps executableTypeHandler
              (i_Method (h_Input h) @ '' '' @ i_Resource (h_Input h)) (h_Steps h) Map.empty fns"
  obtain pre post where hp: "handlerProblems fns h = pre @ snd (?V []) @ post"
    and pre: "\<forall>p \<in> set pre. originOf p = FromHandler"
    and post: "\<forall>p \<in> set post. originOf p = FromHandler"
  proof
    let ?pre = "(if i_Type (h_Input h) = [] then [HandlerMissingType (i_Resource (h_Input h))] else []) @
                (if i_Resource (h_Input h) = []
                 then [HandlerMissingResource (i_Resource (h_Input h))] else []) @
                (if i_Type (h_Input h) = InputTypeRequest \<and> i_Method (h_Input h) = []
                 then [HandlerMissingMethod (i_Resource (h_Input h))] else [])"
    let ?name = "i_Method (h_Input h) @ '' '' @ i_Resource (h_Input h)"
    let ?post = "if h_Response h = [] \<and> IsGroup (last (h_Steps h))
                 then [HandlerGroupNoResponse ?name]
                 else if h_Response h \<noteq> [] \<and> fst (?V []) (h_Response h) = None
                 then [HandlerResponseMissing ?name (h_Response h)] else []"
    show "handlerProblems fns h = ?pre @ snd (?V []) @ ?post"
      using assms unfolding handlerProblems_def validateHandler_def Let_def
      by (simp add: add_def validateSteps_app [of _ _ _ _ _ "[]@_"] validateSteps_eq)
    show "\<forall>p \<in> set ?pre. originOf p = FromHandler" by auto
    show "\<forall>p \<in> set ?post. originOf p = FromHandler" by auto
  qed
  show ?thesis
    using pre post origin_validateSteps [of _ executableTypeHandler _ "h_Steps h" Map.empty fns]
    by (auto simp: hp)
qed

lemma schedule_step_problems:
  assumes "s_Name s \<noteq> []" "s_Steps s \<noteq> []"
  shows "{p \<in> set (scheduleProblems fns m s). originOf p = FromStep} =
         set (snd (validateSteps executableTypeSchedule (s_Name s) (s_Steps s)
                     (primeState (s_State s) Map.empty) fns []))"
  using assms origin_stepProblems [of _ executableTypeSchedule "s_Name s"]
  by (auto simp: scheduleProblems_eq validateSteps_eq)

text \<open>
  Claim C1 as stated fails where an entry of the same call is malformed. In a
  handler whose first step calls \<open>fetch\<close> with the entries "bad" and "x: later" and
  whose second step produces \<open>later\<close>, ParseWith stops at "bad": the binding to
  \<open>later\<close>, a forward reference, draws no dependency defect on \<open>later\<close>; what is
  reported beside the syntax defect are two dependency defects on the empty key.
  In a schedule whose initial state holds the empty key, the same steps give the
  syntax defect alone.
\<close>

theorem forward_reference_counterexample:
  "collect acceptAll
     (demoHandlerDoc [fnStep ((plainFn ''fetch'')\<lparr>c_With := [''bad'', ''x: later'']\<rparr>),
                      fnStep ((plainFn ''fetch'')\<lparr>c_As := ''later''\<rparr>)] []) =
     [InvalidWith executableTypeHandler ''GET /x'' 0 (WrongFormat 1),
      WithKeyNotAvailable executableTypeHandler ''GET /x'' 0 [],
      WithKeyNotAvailable executableTypeHandler ''GET /x'' 0 []]
   \<and> collect acceptAll
       (demoScheduleDoc [tickWith [([], ''seed'')]
          [fnStep ((plainFn ''fetch'')\<lparr>c_With := [''bad'', ''x: later'']\<rparr>),
           fnStep ((plainFn ''fetch'')\<lparr>c_As := ''later''\<rparr>)]]) =
     [InvalidWith executableTypeSchedule ''tick'' 0 (WrongFormat 1)]"
  by (simp add: acceptAll_def collect_def validateHeader_def validateRunnable_def
        namespacedName_def NamespaceDefault_def validateHandler_def InputTypeRequest_def
        validateSchedule_def tickWith_def demoScheduleDoc_def validateSteps_def
        validateStep_def validateFn_def ParseWith_def Split_def demoHandlerDoc_def fnStep_def
        plainFn_def IsFn_def IsGroup_def IsForEach_def add_def Let_def zeroAlias_def)

text \<open>
  Claim C1 as amended. In the sequence of one handler or schedule, a dependency
  defect on a key is reported at a step only if the key is neither in the seed
  state nor produced by a strictly earlier step. For a call of a step whose cached
  list of bindings is empty and whose \<open>with\<close> entries all split in two, the converse
  holds too: a binding of the call is reported exactly when its source key is
  neither in the seed nor produced by a strictly earlier step, so a key first
  produced by the same step, by another member of the same group or by a later step
  is reported. The step problems of a handler are those of its own steps from the
  empty seed, and those of a schedule are those of its own steps from the keys of
  its initial state.
\<close>

theorem binding_dependency:
  "(WithKeyNotAvailable t n i k \<in> set (snd (validateSteps t n steps fs fns [])) \<longrightarrow>
      i < length steps \<and> k \<notin> dom fs \<union> (\<Union>s \<in> set (take i steps). set (stepKeys s)))
   \<and> (i < length steps \<and> c \<in> set (callsOf (steps ! i)) \<and> c_DesiredState c = [] \<and>
       (\<forall>w \<in> set (c_With c). length (Split w '': '') = 2) \<and> w \<in> set (c_With c) \<longrightarrow>
        (WithKeyNotAvailable t n i (a_Key (aliasOf w)) \<in>
           set (snd (validateSteps t n steps fs fns [])) \<longleftrightarrow>
         a_Key (aliasOf w) \<notin> dom fs \<union> (\<Union>s \<in> set (take i steps). set (stepKeys s))))
   \<and> (h_Steps h \<noteq> [] \<longrightarrow>
        {p \<in> set (handlerProblems fns h). originOf p = FromStep} =
        set (snd (validateSteps executableTypeHandler
                    (i_Method (h_Input h) @ '' '' @ i_Resource (h_Input h))
                    (h_Steps h) Map.empty fns [])))
   \<and> (s_Name s \<noteq> [] \<and> s_Steps s \<noteq> [] \<longrightarrow>
        {p \<in> set (scheduleProblems fns m s). originOf p = FromStep} =
        set (snd (validateSteps executableTypeSchedule (s_Name s) (s_Steps s)
                    (primeState (s_State s) Map.empty) fns [])) \<and>
        dom (primeState (s_State s) Map.empty) = fst ` set (s_State s))"
proof -
  have a: "WithKeyNotAvailable t n i k \<in> set (snd (validateSteps t n steps fs fns [])) \<longrightarrow>
      i < length steps \<and> k \<notin> dom fs \<union> (\<Union>s \<in> set (take i steps). set (stepKeys s))"
    by (simp add: dependency_validateSteps dom_stateAt)
  have b: "i < length steps \<and> c \<in> set (callsOf (steps ! i)) \<and> c_DesiredState c = [] \<and>
       (\<forall>w \<in> set (c_With c). length (Split w '': '') = 2) \<and> w \<in> set (c_With c) \<longrightarrow>
        (WithKeyNotAvailable t n i (a_Key (aliasOf w)) \<in>
           set (snd (validateSteps t n steps fs fns [])) \<longleftrightarrow>
         a_Key (aliasOf w) \<notin> dom fs \<union> (\<Union>s \<in> set (take i steps). set (stepKeys s)))"
  proof
    assume asm: "i < length steps \<and> c \<in> set (callsOf (steps ! i)) \<and> c_DesiredState c = [] \<and>
       (\<forall>w \<in> set (c_With c). length (Split w '': '') = 2) \<and> w \<in> set (c_With c)"
    then have "c_DesiredState (fst (ParseWith c)) = map aliasOf (c_With c)"
      using ParseWith_ok [of c] by blast
    with asm have "\<exists>c \<in> set (callsOf (steps ! i)).
           a_Key (aliasOf w) \<in> a_Key ` set (c_DesiredState (fst (ParseWith c)))"
      by force
    with asm show "WithKeyNotAvailable t n i (a_Key (aliasOf w)) \<in>
           set (snd (validateSteps t n steps fs fns [])) \<longleftrightarrow>
         a_Key (aliasOf w) \<notin> dom fs \<union> (\<Union>s \<in> set (take i steps). set (stepKeys s))"
      by (simp add: dependency_validateSteps dom_stateAt)
  qed
  have c: "h_Steps h \<noteq> [] \<longrightarrow>
        {p \<in> set (handlerProblems fns h). originOf p = FromStep} =
        set (snd (validateSteps executableTypeHandler
                    (i_Method (h_Input h) @ '' '' @ i_Resource (h_Input h))
                    (h_Steps h) Map.empty fns []))"
    using handler_step_problems [of h fns] by blast
  have d: "s_Name s \<noteq> [] \<and> s_Steps s \<noteq> [] \<longrightarrow>
        {p \<in> set (scheduleProblems fns m s). originOf p = FromStep} =
        set (snd (validateSteps executableTypeSchedule (s_Name s) (s_Steps s)
                    (primeState (s_State s) Map.empty) fns [])) \<and>
        dom (primeState (s_State s) Map.empty) = fst ` set (s_State s)"
    using schedule_step_problems [of s fns m] by (simp add: dom_primeState)
  from a b c d show ?thesis by blast
qed

theorem binding_dependency_witness:
  "(0::nat) < length [fnStep ((plainFn ''fetch'')\<lparr>c_With := [''x: later'']\<rparr>),
                      fnStep ((plainFn ''fetch'')\<lparr>c_As := ''later''\<rparr>)]
   \<and> (plainFn ''fetch'')\<lparr>c_With := [''x: later'']\<rparr> \<in>
       set (callsOf ([fnStep ((plainFn ''fetch'')\<lparr>c_With := [''x: later'']\<rparr>),
                      fnStep ((plainFn ''fetch'')\<lparr>c_As := ''later''\<rparr>)] ! 0))
   \<and> a_Key (aliasOf ''x: later'') = ''later''
   \<and> WithKeyNotAvailable executableTypeHandler ''GET /x'' 0 ''later'' \<in>
       set (snd (validateSteps executableTypeHandler ''GET /x''
                  [fnStep ((plainFn ''fetch'')\<lparr>c_With := [''x: later'']\<rparr>),
                   fnStep ((plainFn ''fetch'')\<lparr>c_As := ''later''\<rparr>)]
                  Map.empty [''fetch'' \<mapsto> True] []))
   \<and> (plainFn ''fetch'')\<lparr>c_As := ''second'', c_With := [''x: fetch'']\<rparr> \<in>
       set (callsOf ([groupStep [plainFn ''fetch'',
                       (plainFn ''fetch'')\<lparr>c_As := ''second'', c_With := [''x: fetch'']\<rparr>]] ! 0))
   \<and> WithKeyNotAvailable executableTypeHandler ''GET /x'' 0 ''fetch'' \<in>
       set (snd (validateSteps executableTypeHandler ''GET /x''
                  [groupStep [plainFn ''fetch'',
                     (plainFn ''fetch'')\<lparr>c_As := ''second'', c_With := [''x: fetch'']\<rparr>]]
                  Map.empty [''fetch'' \<mapsto> True] []))"
  using binding_dependency [where i = 0 and t = executableTypeHandler and n = "''GET /x''"
      and steps = "[fnStep ((plainFn ''fetch'')\<lparr>c_With := [''x: later'']\<rparr>),
                    fnStep ((plainFn ''fetch'')\<lparr>c_As := ''later''\<rparr>)]"
      and c = "(plainFn ''fetch'')\<lparr>c_With := [''x: later'']\<rparr>" and w = "''x: later''"
      and fs = Map.empty and fns = "[''fetch'' \<mapsto> True]"
      and h = "\<lparr>h_Input = \<lparr>i_Type = ''request'', i_Method = ''GET'', i_Resource = ''/x''\<rparr>,
                 h_Steps = [fnStep (plainFn ''fetch'')], h_Response = []\<rparr>"
      and s = "tickWith [] [fnStep (plainFn ''fetch'')]"]
    binding_dependency [where i = 0 and t = executableTypeHandler and n = "''GET /x''"
      and steps = "[groupStep [plainFn ''fetch'',
                      (plainFn ''fetch'')\<lparr>c_As := ''second'', c_With := [''x: fetch'']\<rparr>]]"
      and c = "(plainFn ''fetch'')\<lparr>c_As := ''second'', c_With := [''x: fetch'']\<rparr>"
      and w = "''x: fetch''"
      and fs = Map.empty and fns = "[''fetch'' \<mapsto> True]"
      and h = "\<lparr>h_Input = \<lparr>i_Type = ''request'', i_Method = ''GET'', i_Resource = ''/x''\<rparr>,
                 h_Steps = [fnStep (plainFn ''fetch'')], h_Response = []\<rparr>"
      and s = "tickWith [] [fnStep (plainFn ''fetch'')]"]
  by (simp add: callsOf_def fnStep_def groupStep_def plainFn_def IsFn_def IsGroup_def
        aliasOf_def Split_def tickWith_def)

section \<open>The aggregate error\<close>

lemma fold_render:
  "fold (\<lambda>err text. text @ sep @ Error err) p acc = acc @ concat (map (\<lambda>err. sep @ Error err) p)"
  by (induction p arbitrary: acc) simp_all

lemma render_eq:
  "render p =
     (if p = [] then None
      else Some (''found '' @ fmt_nat (length p) @ '' problems:'' @
                 concat (map (\<lambda>err. [CHR 0x0A, CHR 0x09] @ Error err) p)))"
  unfolding render_def fold_render by simp

lemma handler_steps_traversed:
  "j < length (h_Steps h) \<Longrightarrow>
   set (stepProblems executableTypeHandler (i_Method (h_Input h) @ '' '' @ i_Resource (h_Input h))
          j fns (stateAt (h_Steps h) Map.empty j) (h_Steps h ! j))
   \<subseteq> set (handlerProblems fns h)"
proof -
  assume j: "j < length (h_Steps h)"
  then have ne: "h_Steps h \<noteq> []" by auto
  have "set (stepProblems executableTypeHandler (i_Method (h_Input h) @ '' '' @ i_Resource (h_Input h))
          j fns (stateAt (h_Steps h) Map.empty j) (h_Steps h ! j))
        \<subseteq> set (snd (validateSteps executableTypeHandler
                     (i_Method (h_Input h) @ '' '' @ i_Resource (h_Input h))
                     (h_Steps h) Map.empty fns []))"
    using j by (auto simp: validateSteps_eq)
  then show ?thesis
    using handler_step_problems [OF ne, of fns] by blast
qed

lemma schedule_steps_traversed:
  "s_Name s \<noteq> [] \<Longrightarrow> j < length (s_Steps s) \<Longrightarrow>
   set (stepProblems executableTypeSchedule (s_Name s) j fns
          (stateAt (s_Steps s) (primeState (s_State s) Map.empty) j) (s_Steps s ! j))
   \<subseteq> set (scheduleProblems fns i s)"
  by (auto simp: scheduleProblems_eq)

text \<open>
  Claim C2 as stated fails: the steps of a schedule without a name are not
  traversed. The schedule whose one step calls the unknown function \<open>missing\<close> is
  reported for that step when it is named \<open>tick\<close>; without a name, the only problem
  is the missing name.
\<close>

theorem nameless_schedule_counterexample:
  "collect acceptAll (demoScheduleDoc [(tickWith [] [fnStep (plainFn ''missing'')])\<lparr>s_Name := []\<rparr>]) =
     [ScheduleNoName 0]
   \<and> collect acceptAll (demoScheduleDoc [tickWith [] [fnStep (plainFn ''missing'')]]) =
     [FnNotExist executableTypeSchedule ''tick'' 0 ''missing'']"
  by (simp add: acceptAll_def collect_def validateHeader_def validateRunnable_def
        namespacedName_def NamespaceDefault_def validateSchedule_def tickWith_def
        demoScheduleDoc_def validateSteps_def validateStep_def validateFn_def ParseWith_def
        fnStep_def plainFn_def IsFn_def IsGroup_def IsForEach_def add_def Let_def)

text \<open>
  Claim C2 as amended. Validate returns nil exactly when the collector is empty at
  the end; otherwise it returns one error whose text gives the number of problems
  and then one line for each problem, in the order of the collector. Every function
  of the validation appends to the collector it is given. The collector at the
  end holds, in this order, the problems of the header, of every runnable
  position, of every handler and of every schedule. The problems of a handler
  include those of each of its steps, and the problems of a schedule that has a
  name include those of each of its steps; for a schedule without a name the
  missing name is the only problem and its steps are not visited.
\<close>

theorem validate_aggregate:
  "(snd (Validate IsValid d) = None \<longleftrightarrow> collect IsValid d = [])
   \<and> (collect IsValid d \<noteq> [] \<longrightarrow>
        snd (Validate IsValid d) =
          Some (''found '' @ fmt_nat (length (collect IsValid d)) @ '' problems:'' @
                concat (map (\<lambda>err. [CHR 0x0A, CHR 0x09] @ Error err) (collect IsValid d))))
   \<and> validateHeader IsValid d p = p @ headerProblems IsValid d
   \<and> snd (validateRunnables i rs (fns, p)) = p @ snd (validateRunnables i rs (fns, []))
   \<and> validateHandlers fns hs p = p @ concat (map (handlerProblems fns) hs)
   \<and> validateSchedules fns i ss p =
       p @ concat (map (\<lambda>k. scheduleProblems fns (i + k) (ss ! k)) [0..<length ss])
   \<and> snd (validateSteps t n steps fs fns p) = p @ snd (validateSteps t n steps fs fns [])
   \<and> collect IsValid d =
       headerProblems IsValid d @
       concat (map (positionProblems d) [0..<length (d_Runnables d)]) @
       concat (map (handlerProblems (knownFns d)) (d_Handlers d)) @
       concat (map (\<lambda>k. scheduleProblems (knownFns d) k (d_Schedules d ! k))
                 [0..<length (d_Schedules d)])
   \<and> (\<forall>j < length (h_Steps h).
        set (stepProblems executableTypeHandler
               (i_Method (h_Input h) @ '' '' @ i_Resource (h_Input h)) j fns
               (stateAt (h_Steps h) Map.empty j) (h_Steps h ! j))
        \<subseteq> set (handlerProblems fns h))
   \<and> (s_Name s \<noteq> [] \<longrightarrow>
        (\<forall>j < length (s_Steps s).
           set (stepProblems executableTypeSchedule (s_Name s) j fns
                  (stateAt (s_Steps s) (primeState (s_State s) Map.empty) j) (s_Steps s ! j))
           \<subseteq> set (scheduleProblems fns i s)))
   \<and> (s_Name s = [] \<longrightarrow> scheduleProblems fns i s = [ScheduleNoName i])"
proof -
  have 1: "snd (Validate IsValid d) = None \<longleftrightarrow> collect IsValid d = []"
    by (simp add: Validate_def render_eq)
  have 2: "collect IsValid d \<noteq> [] \<longrightarrow>
        snd (Validate IsValid d) =
          Some (''found '' @ fmt_nat (length (collect IsValid d)) @ '' problems:'' @
                concat (map (\<lambda>err. [CHR 0x0A, CHR 0x09] @ Error err) (collect IsValid d)))"
    by (simp add: Validate_def render_eq)
  have 3: "validateHeader IsValid d p = p @ headerProblems IsValid d"
    by (rule validateHeader_app)
  have 4: "snd (validateRunnables i rs (fns, p)) = p @ snd (validateRunnables i rs (fns, []))"
    using validateRunnables_app [of i rs fns p] by simp
  have 5: "validateHandlers fns hs p = p @ concat (map (handlerProblems fns) hs)"
    by (rule validateHandlers_app)
  have 6: "validateSchedules fns i ss p =
       p @ concat (map (\<lambda>k. scheduleProblems fns (i + k) (ss ! k)) [0..<length ss])"
    by (rule validateSchedules_app)
  have 7: "snd (validateSteps t n steps fs fns p) = p @ snd (validateSteps t n steps fs fns [])"
    using validateSteps_app [of t n steps fs fns p] by simp
  have 8: "collect IsValid d =
       headerProblems IsValid d @
       concat (map (positionProblems d) [0..<length (d_Runnables d)]) @
       concat (map (handlerProblems (knownFns d)) (d_Handlers d)) @
       concat (map (\<lambda>k. scheduleProblems (knownFns d) k (d_Schedules d ! k))
                 [0..<length (d_Schedules d)])"
    by (simp only: collect_eq runnableProblems_positions)
  have 9: "\<forall>j < length (h_Steps h).
        set (stepProblems executableTypeHandler
               (i_Method (h_Input h) @ '' '' @ i_Resource (h_Input h)) j fns
               (stateAt (h_Steps h) Map.empty j) (h_Steps h ! j))
        \<subseteq> set (handlerProblems fns h)"
    using handler_steps_traversed [of _ h fns] by blast
  have 10: "s_Name s \<noteq> [] \<longrightarrow>
        (\<forall>j < length (s_Steps s).
           set (stepProblems executableTypeSchedule (s_Name s) j fns
                  (stateAt (s_Steps s) (primeState (s_State s) Map.empty) j) (s_Steps s ! j))
           \<subseteq> set (scheduleProblems fns i s))"
    using schedule_steps_traversed [of s _ fns i] by blast
  have 11: "s_Name s = [] \<longrightarrow> scheduleProblems fns i s = [ScheduleNoName i]"
    by (simp add: scheduleProblems_eq)
  from 1 2 3 4 5 6 7 8 9 10 11 show ?thesis by (intro conjI)
qed

theorem validate_aggregate_witness:
  "collect acceptAll (demoScheduleDoc [tickWith [] [fnStep (plainFn ''missing'')]]) \<noteq> []
   \<and> snd (Validate acceptAll (demoScheduleDoc [tickWith [] [fnStep (plainFn ''missing'')]])) =
       Some (''found 1 problems:'' @ [CHR 0x0A, CHR 0x09] @
             ''schedule for tick lists fn at step 0 that does not exist: missing (did you forget a namespace?)'')
   \<and> s_Name (tickWith [] [fnStep (plainFn ''missing'')]) \<noteq> []
   \<and> FnNotExist executableTypeSchedule ''tick'' 0 ''missing'' \<in>
       set (scheduleProblems [''fetch'' \<mapsto> True] 0 (tickWith [] [fnStep (plainFn ''missing'')]))"
proof -
  have c: "collect acceptAll (demoScheduleDoc [tickWith [] [fnStep (plainFn ''missing'')]]) =
           [FnNotExist executableTypeSchedule ''tick'' 0 ''missing'']"
    by (simp add: acceptAll_def collect_def validateHeader_def validateRunnable_def
        namespacedName_def NamespaceDefault_def validateSchedule_def tickWith_def
        demoScheduleDoc_def validateSteps_def validateStep_def validateFn_def ParseWith_def
        fnStep_def plainFn_def IsFn_def IsGroup_def IsForEach_def add_def Let_def)
  have n: "s_Name (tickWith [] [fnStep (plainFn ''missing'')]) \<noteq> []"
    by (simp add: tickWith_def)
  have sp: "FnNotExist executableTypeSchedule ''tick'' 0 ''missing'' \<in>
          set (stepProblems executableTypeSchedule (s_Name (tickWith [] [fnStep (plainFn ''missing'')])) 0
                 [''fetch'' \<mapsto> True]
                 (stateAt (s_Steps (tickWith [] [fnStep (plainFn ''missing'')]))
                    (primeState (s_State (tickWith [] [fnStep (plainFn ''missing'')])) Map.empty) 0)
                 (s_Steps (tickWith [] [fnStep (plainFn ''missing'')]) ! 0))"
    by (simp add: tickWith_def stepProblems_eq fnProblems_eq fnStep_def plainFn_def IsFn_def
          IsGroup_def IsForEach_def ParseWith_def)
  have len: "(0::nat) < length (s_Steps (tickWith [] [fnStep (plainFn ''missing'')]))"
    by (simp add: tickWith_def)
  note va = validate_aggregate [where IsValid = acceptAll
      and d = "demoScheduleDoc [tickWith [] [fnStep (plainFn ''missing'')]]"
      and s = "tickWith [] [fnStep (plainFn ''missing'')]" and fns = "[''fetch'' \<mapsto> True]"
      and i = 0]
  from va c have r: "snd (Validate acceptAll (demoScheduleDoc [tickWith [] [fnStep (plainFn ''missing'')]])) =
       Some (''found 1 problems:'' @ [CHR 0x0A, CHR 0x09] @
             ''schedule for tick lists fn at step 0 that does not exist: missing (did you forget a namespace?)'')"
    by (simp add: fmt_nat.simps fmt_exType_def)
  from va n len sp have "FnNotExist executableTypeSchedule ''tick'' 0 ''missing'' \<in>
       set (scheduleProblems [''fetch'' \<mapsto> True] 0 (tickWith [] [fnStep (plainFn ''missing'')]))"
    by blast
  with c r n show ?thesis by simp
qed

section \<open>The order in which a map is enumerated\<close>

lemma sameProblems_refl: "sameProblems ps ps"
  by (rule sameProblems.same)

lemma sameProblems_append:
  "sameProblems a b \<Longrightarrow> sameProblems c d \<Longrightarrow> sameProblems (a @ c) (b @ d)"
  by (rule sameProblems.app)

lemma sameProblems_concat:
  "list_all2 sameProblems xs ys \<Longrightarrow> sameProblems (concat xs) (concat ys)"
  by (induction rule: list_all2_induct) (simp_all add: sameProblems_refl sameProblems_append)

lemma sameProblems_checkCodes:
  assumes "mset cs = mset cs'"
  shows "sameProblems (checkCodes t n j cs []) (checkCodes t n j cs' [])"
  using assms by (rule sameProblems.codes)

lemma checkCodes_mset:
  "mset (checkCodes t n j cs []) =
     image_mset (\<lambda>cv. OnErrCodeInvalid t n j (fst cv) (snd cv))
       (filter_mset (\<lambda>cv. snd cv \<noteq> ''return'' \<and> snd cv \<noteq> ''continue'') (mset cs))"
  by (simp add: checkCodes_eq)

lemma checkCodes_only_codes:
  "filter (\<lambda>p. \<not> isCodeDefect p) (checkCodes t n j cs []) = []"
  by (induction cs) (simp_all add: checkCodes_eq)

lemma sameProblems_sound:
  "sameProblems ps qs \<Longrightarrow>
   mset ps = mset qs \<and>
   filter (\<lambda>p. \<not> isCodeDefect p) ps = filter (\<lambda>p. \<not> isCodeDefect p) qs"
proof (induction rule: sameProblems.induct)
  case (same ps)
  show ?case by simp
next
  case (codes cs cs' t n j)
  then show ?case by (simp add: checkCodes_mset checkCodes_only_codes)
next
  case (app a b c d)
  then show ?case by simp
qed

lemma checkOnErr_split:
  "checkOnErr t n j oe [] =
     (if o_Code oe \<noteq> [] \<and> o_Any oe \<noteq> [] then [OnErrAnyWithCodes t n j]
      else if o_Any oe \<noteq> [] \<and> o_Any oe \<noteq> ''continue'' \<and> o_Any oe \<noteq> ''return''
      then [OnErrAnyInvalid t n j (o_Any oe)] else []) @
     (if o_Code oe = [] \<and> o_Other oe \<noteq> [] then [OnErrOtherWithoutCodes t n j]
      else if o_Other oe \<noteq> [] \<and> o_Other oe \<noteq> ''continue'' \<and> o_Other oe \<noteq> ''return''
      then [OnErrOtherInvalid t n j (o_Other oe)] else []) @
     checkCodes t n j (o_Code oe) []"
  by (simp add: checkOnErr_def Let_def add_def checkCodes_eq)

lemma sameProblems_checkOnErr:
  assumes "sameOnErr oe oe'"
  shows "sameProblems (checkOnErr t n j oe []) (checkOnErr t n j oe' [])"
proof -
  from assms have m: "mset (o_Code oe) = mset (o_Code oe')"
    and a: "o_Any oe = o_Any oe'" and b: "o_Other oe = o_Other oe'"
    by (simp_all add: sameOnErr_def)
  from m have e: "o_Code oe = [] \<longleftrightarrow> o_Code oe' = []"
    by (metis mset_zero_iff)
  show ?thesis
    unfolding checkOnErr_split a b e
    by (intro sameProblems_append sameProblems_refl sameProblems_checkCodes m)
qed

lemma ParseWith_same:
  assumes "sameFn c c'"
  shows "snd (ParseWith c) = snd (ParseWith c')"
    and "c_DesiredState (fst (ParseWith c)) = c_DesiredState (fst (ParseWith c'))"
  using assms by (simp_all add: sameFn_def ParseWith_def split: prod.splits option.splits)

lemma sameProblems_fnProblems:
  assumes "sameFn c c'"
  shows "sameProblems (fnProblems t n j fns fs c) (fnProblems t n j fns fs c')"
proof -
  have oe: "sameProblems (case c_OnErr c of None \<Rightarrow> [] | Some oe \<Rightarrow> checkOnErr t n j oe [])
                         (case c_OnErr c' of None \<Rightarrow> [] | Some oe \<Rightarrow> checkOnErr t n j oe [])"
    using assms
    by (auto simp: sameFn_def option.rel_sel sameProblems_refl sameProblems_checkOnErr
             split: option.splits)
  have f: "c_Fn c = c_Fn c'" using assms by (simp add: sameFn_def)
  show ?thesis
    unfolding fnProblems_eq ParseWith_same [OF assms] f
    by (intro sameProblems_append sameProblems_refl oe)
qed

lemma fnKey_same: "sameFn c c' \<Longrightarrow> fnKey c = fnKey c'"
  by (simp add: sameFn_def fnKey_def)

lemma sameProblems_group:
  "list_all2 sameFn g g' \<Longrightarrow>
   sameProblems (concat (map (fnProblems t n j fns fs) g)) (concat (map (fnProblems t n j fns fs) g'))
   \<and> map fnKey g = map fnKey g'"
  by (induction rule: list_all2_induct)
     (simp_all add: sameProblems_refl sameProblems_append sameProblems_fnProblems fnKey_same)

lemma sameStep_classes:
  assumes "sameStep s s'"
  shows "IsFn s = IsFn s'" "IsGroup s = IsGroup s'" "IsForEach s = IsForEach s'"
proof -
  from assms have f: "c_Fn (e_CallableFn s) = c_Fn (e_CallableFn s')"
    and g: "rel_option (list_all2 sameFn) (e_Group s) (e_Group s')"
    and e: "rel_option sameForEach (e_ForEach s) (e_ForEach s')"
    by (simp_all add: sameStep_def sameFn_def)
  from g have gn: "e_Group s = None \<longleftrightarrow> e_Group s' = None"
    by (cases "e_Group s"; cases "e_Group s'") simp_all
  from e have en: "e_ForEach s = None \<longleftrightarrow> e_ForEach s' = None"
    by (cases "e_ForEach s"; cases "e_ForEach s'") simp_all
  from g have gl: "(case e_Group s of None \<Rightarrow> False | Some g \<Rightarrow> length g > 0) =
                   (case e_Group s' of None \<Rightarrow> False | Some g \<Rightarrow> length g > 0)"
    by (cases "e_Group s"; cases "e_Group s'") (auto dest: list_all2_lengthD)
  show "IsFn s = IsFn s'" by (simp add: IsFn_def f gn en)
  show "IsGroup s = IsGroup s'" by (simp add: IsGroup_def f gl en)
  show "IsForEach s = IsForEach s'" by (simp add: IsForEach_def f gn en)
qed

lemma sameStep_step:
  assumes "sameStep s s'"
  shows "sameProblems (stepProblems t n j fns fs s) (stepProblems t n j fns fs s')"
    and "stepKeys s = stepKeys s'"
proof -
  note cl = sameStep_classes [OF assms]
  have c: "sameFn (e_CallableFn s) (e_CallableFn s')"
    using assms by (simp add: sameStep_def)
  have g: "IsGroup s \<Longrightarrow> list_all2 sameFn (the (e_Group s)) (the (e_Group s'))"
    using assms by (cases "e_Group s"; cases "e_Group s'") (simp_all add: sameStep_def IsGroup_def)
  have e: "IsForEach s \<Longrightarrow> sameForEach (the (e_ForEach s)) (the (e_ForEach s'))"
    using assms
    by (cases "e_ForEach s"; cases "e_ForEach s'") (simp_all add: sameStep_def IsForEach_def)
  show "stepKeys s = stepKeys s'"
    using c g e sameProblems_group [of "the (e_Group s)" "the (e_Group s')"]
    by (auto simp: stepKeys_def cl [symmetric] fnKey_same sameForEach_def)
  consider "IsFn s" | "\<not> IsFn s" "IsGroup s" | "\<not> IsFn s" "\<not> IsGroup s" "IsForEach s"
    | "\<not> IsFn s" "\<not> IsGroup s" "\<not> IsForEach s" by blast
  then show "sameProblems (stepProblems t n j fns fs s) (stepProblems t n j fns fs s')"
  proof cases
    case 1
    then show ?thesis
      using cl c by (simp add: stepProblems_eq sameProblems_fnProblems)
  next
    case 2
    then show ?thesis
      using cl g sameProblems_group [of "the (e_Group s)" "the (e_Group s')" t n j fns fs]
      by (simp add: stepProblems_eq)
  next
    case 3
    with e have fe: "sameForEach (the (e_ForEach s)) (the (e_ForEach s'))" by simp
    then have "sameFn (fe_Fn (the (e_ForEach s))) (fe_Fn (the (e_ForEach s')))"
      and "fe_As (the (e_ForEach s)) = fe_As (the (e_ForEach s'))"
      by (simp_all add: sameForEach_def)
    moreover from this have "c_As (fe_Fn (the (e_ForEach s))) = c_As (fe_Fn (the (e_ForEach s')))"
      and "c_With (fe_Fn (the (e_ForEach s))) = c_With (fe_Fn (the (e_ForEach s')))"
      by (simp_all add: sameFn_def)
    ultimately show ?thesis
      using 3 cl
      by (simp add: stepProblems_eq sameProblems_append sameProblems_refl sameProblems_fnProblems)
  next
    case 4
    then show ?thesis
      using cl by (simp add: stepProblems_eq sameProblems_refl)
  qed
qed

lemma sameStep_steps:
  "list_all2 sameStep ss ss' \<Longrightarrow>
   sameProblems (snd (validateStepsFrom t n j fns ss (fs, [])))
                (snd (validateStepsFrom t n j fns ss' (fs, [])))
   \<and> fst (validateStepsFrom t n j fns ss (fs, [])) = fst (validateStepsFrom t n j fns ss' (fs, []))"
proof (induction arbitrary: j fs rule: list_all2_induct)
  case Nil
  then show ?case by (simp add: sameProblems_refl)
next
  case (Cons s ss s' ss')
  have k: "stepKeys s = stepKeys s'" and p: "sameProblems (stepProblems t n j fns fs s)
                                              (stepProblems t n j fns fs s')"
    using sameStep_step [OF Cons.hyps(1)] by simp_all
  have u: "validateStepsFrom t n j fns (x # xs) (fs, []) =
           (fst (validateStepsFrom t n (Suc j) fns xs (addKeys (stepKeys x) fs, [])),
            stepProblems t n j fns fs x @
            snd (validateStepsFrom t n (Suc j) fns xs (addKeys (stepKeys x) fs, [])))" for x xs
    using validateStepsFrom_app [of t n "Suc j" fns xs "addKeys (stepKeys x) fs"
            "stepProblems t n j fns fs x"]
    by (simp add: validateStep_eq)
  show ?case
    using Cons.IH [of "Suc j" "addKeys (stepKeys s') fs"] p
    by (simp only: u k fst_conv snd_conv) (simp add: sameProblems_append)
qed

lemma list_all2_last:
  "list_all2 P xs ys \<Longrightarrow> xs \<noteq> [] \<Longrightarrow> P (last xs) (last ys)"
proof (induction rule: list_all2_induct)
  case Nil
  then show ?case by simp
next
  case (Cons x xs y ys)
  show ?case
  proof (cases "xs = []")
    case True
    with Cons.hyps(2) have "ys = []" by simp
    with True Cons.hyps(1) show ?thesis by simp
  next
    case False
    with Cons.hyps(2) have "ys \<noteq> []" by auto
    with False Cons.IH show ?thesis by simp
  qed
qed

lemma handlerProblems_split:
  "handlerProblems fns h =
     (if i_Type (h_Input h) = [] then [HandlerMissingType (i_Resource (h_Input h))] else []) @
     (if i_Resource (h_Input h) = [] then [HandlerMissingResource (i_Resource (h_Input h))] else []) @
     (if i_Type (h_Input h) = InputTypeRequest \<and> i_Method (h_Input h) = []
      then [HandlerMissingMethod (i_Resource (h_Input h))] else []) @
     (if h_Steps h = [] then [HandlerMissingSteps (i_Resource (h_Input h))]
      else snd (validateSteps executableTypeHandler
                  (i_Method (h_Input h) @ '' '' @ i_Resource (h_Input h)) (h_Steps h)
                  Map.empty fns []) @
           (if h_Response h = [] \<and> IsGroup (last (h_Steps h))
            then [HandlerGroupNoResponse (i_Method (h_Input h) @ '' '' @ i_Resource (h_Input h))]
            else if h_Response h \<noteq> [] \<and>
                    fst (validateSteps executableTypeHandler
                           (i_Method (h_Input h) @ '' '' @ i_Resource (h_Input h)) (h_Steps h)
                           Map.empty fns []) (h_Response h) = None
            then [HandlerResponseMissing (i_Method (h_Input h) @ '' '' @ i_Resource (h_Input h))
                    (h_Response h)]
            else []))"
  unfolding handlerProblems_def validateHandler_def Let_def
  by (simp add: add_def validateSteps_app [of _ _ _ _ _ "[]@_"] validateSteps_eq)

lemma sameHandler_problems:
  assumes "sameHandler h h'"
  shows "sameProblems (handlerProblems fns h) (handlerProblems fns h')"
proof -
  from assms have i: "h_Input h = h_Input h'" and r: "h_Response h = h_Response h'"
    and st: "list_all2 sameStep (h_Steps h) (h_Steps h')"
    by (simp_all add: sameHandler_def)
  from st have e: "h_Steps h = [] \<longleftrightarrow> h_Steps h' = []" by auto
  have g: "h_Steps h \<noteq> [] \<Longrightarrow> IsGroup (last (h_Steps h)) = IsGroup (last (h_Steps h'))"
    using list_all2_last [OF st] sameStep_classes(2) by blast
  have v: "sameProblems (snd (validateSteps t n (h_Steps h) fs fns []))
             (snd (validateSteps t n (h_Steps h') fs fns []))"
    and f: "fst (validateSteps t n (h_Steps h) fs fns []) =
            fst (validateSteps t n (h_Steps h') fs fns [])" for t n fs
    using sameStep_steps [OF st, of t n 0 fns fs] by (simp_all add: validateSteps_def)
  show ?thesis
  proof (cases "h_Steps h = []")
    case True
    with e show ?thesis
      by (simp add: handlerProblems_split i sameProblems_refl)
  next
    case False
    with e have ne: "h_Steps h' \<noteq> []" by simp
    show ?thesis
      unfolding handlerProblems_split i r f g [OF False]
      using False ne
      by (simp add: sameProblems_append sameProblems_refl v)
  qed
qed

lemma primeState_eq:
  "primeState kvs m = (\<lambda>k. if k \<in> fst ` set kvs then Some True else m k)"
proof (induction kvs arbitrary: m)
  case Nil
  then show ?case by simp
next
  case (Cons kv kvs)
  obtain k v where kv: "kv = (k, v)" by (cases kv)
  show ?case
    by (rule ext) (simp add: kv Cons.IH)
qed

lemma scheduleProblems_split:
  "scheduleProblems fns i s =
     (if s_Name s = [] then [ScheduleNoName i]
      else if s_Steps s = [] then [ScheduleMissingSteps (s_Name s)]
      else (if everyAllZero s then [ScheduleNoEvery (s_Name s)] else []) @
           snd (validateSteps executableTypeSchedule (s_Name s) (s_Steps s)
                  (primeState (s_State s) Map.empty) fns []))"
  by (simp add: scheduleProblems_eq validateSteps_eq)

lemma sameSchedule_problems:
  assumes "sameSchedule s s'"
  shows "sameProblems (scheduleProblems fns i s) (scheduleProblems fns i s')"
proof -
  from assms have n: "s_Name s = s_Name s'" and ev: "s_Every s = s_Every s'"
    and m: "mset (s_State s) = mset (s_State s')"
    and st: "list_all2 sameStep (s_Steps s) (s_Steps s')"
    by (simp_all add: sameSchedule_def)
  from st have e: "s_Steps s = [] \<longleftrightarrow> s_Steps s' = []" by auto
  from m have "set (s_State s) = set (s_State s')" by (rule mset_eq_setD)
  then have ps: "primeState (s_State s) Map.empty = primeState (s_State s') Map.empty"
    by (simp add: primeState_eq)
  have z: "everyAllZero s = everyAllZero s'"
    by (simp add: everyAllZero_def ev)
  have v: "sameProblems (snd (validateSteps t n (s_Steps s) fs fns []))
             (snd (validateSteps t n (s_Steps s') fs fns []))" for t n fs
    using sameStep_steps [OF st, of t n 0 fns fs] by (simp add: validateSteps_def)
  show ?thesis
    unfolding scheduleProblems_split n ps z e
    by (simp add: sameProblems_append sameProblems_refl v)
qed

lemma sameDirective_collect:
  assumes "sameDirective d d'"
  shows "sameProblems (collect IsValid d) (collect IsValid d')"
proof -
  from assms have r: "d_Runnables d = d_Runnables d'"
    and hs: "list_all2 sameHandler (d_Handlers d) (d_Handlers d')"
    and ss: "list_all2 sameSchedule (d_Schedules d) (d_Schedules d')"
    by (simp_all add: sameDirective_def)
  have h: "headerProblems IsValid d = headerProblems IsValid d'"
    using assms by (simp add: sameDirective_def headerProblems_def validateHeader_def)
  have rp: "runnableProblems d = runnableProblems d'" and k: "knownFns d = knownFns d'"
    by (simp_all add: runnableProblems_def knownFns_def r)
  have H: "sameProblems (concat (map (handlerProblems (knownFns d')) (d_Handlers d)))
                        (concat (map (handlerProblems (knownFns d')) (d_Handlers d')))"
    using hs
    by (intro sameProblems_concat)
       (simp add: list_all2_conv_all_nth sameHandler_problems)
  have S: "sameProblems
             (concat (map (\<lambda>k. scheduleProblems (knownFns d') k (d_Schedules d ! k))
                        [0..<length (d_Schedules d)]))
             (concat (map (\<lambda>k. scheduleProblems (knownFns d') k (d_Schedules d' ! k))
                        [0..<length (d_Schedules d')]))"
    using ss
    by (intro sameProblems_concat)
       (simp add: list_all2_conv_all_nth sameSchedule_problems)
  show ?thesis
    unfolding collect_eq h rp k
    by (intro sameProblems_append sameProblems_refl H S)
qed

text \<open>
  Claim C9 as stated fails in its last part. Go leaves the order of a \<open>range\<close> over a
  map unspecified, and the loop over \<open>fn.OnErr.Code\<close> appends a problem for each invalid
  entry in that order. For the handler step with \<open>onErr: {code: {404: retry, 500: abort}}\<close>
  a run that meets 404 first and a run that meets 500 first return errors whose
  lines are in different orders, although the Directive is the same.
\<close>

theorem map_order_counterexample:
  "sameDirective (onErrDoc [(404, ''retry''), (500, ''abort'')])
                 (onErrDoc [(500, ''abort''), (404, ''retry'')])
   \<and> snd (Validate acceptAll (onErrDoc [(404, ''retry''), (500, ''abort'')])) \<noteq>
     snd (Validate acceptAll (onErrDoc [(500, ''abort''), (404, ''retry'')]))"
proof -
  have s: "sameDirective (onErrDoc [(404, ''retry''), (500, ''abort'')])
                         (onErrDoc [(500, ''abort''), (404, ''retry'')])"
    by (simp add: sameDirective_def sameHandler_def sameStep_def sameFn_def sameOnErr_def
          onErrDoc_def demoHandlerDoc_def fnStep_def plainFn_def)
  have c: "collect acceptAll (onErrDoc [(c1, v1), (c2, v2)]) =
      (if v1 \<noteq> ''return'' \<and> v1 \<noteq> ''continue''
       then [OnErrCodeInvalid executableTypeHandler ''GET /x'' 0 c1 v1] else []) @
      (if v2 \<noteq> ''return'' \<and> v2 \<noteq> ''continue''
       then [OnErrCodeInvalid executableTypeHandler ''GET /x'' 0 c2 v2] else [])" for c1 v1 c2 v2
    by (simp add: acceptAll_def collect_def validateHeader_def validateRunnable_def
        namespacedName_def NamespaceDefault_def validateHandler_def InputTypeRequest_def
        validateSteps_def validateStep_def validateFn_def ParseWith_def checkOnErr_def
        onErrDoc_def demoHandlerDoc_def fnStep_def plainFn_def IsFn_def IsGroup_def
        IsForEach_def add_def Let_def)
  have "snd (Validate acceptAll (onErrDoc [(404, ''retry''), (500, ''abort'')])) \<noteq>
        snd (Validate acceptAll (onErrDoc [(500, ''abort''), (404, ''retry'')]))"
    by (simp add: Validate_def c render_eq fmt_int_def fmt_nat.simps)
  with s show ?thesis by simp
qed

section \<open>The store during a validation\<close>

lemma keeps_refl: "keeps \<sigma> \<sigma>"
  by (simp add: keeps_def)

lemma keeps_append: "keeps \<sigma> (\<sigma> @ xs)"
  by (simp add: keeps_def)

lemma keeps_length: "keeps \<sigma> \<sigma>' \<Longrightarrow> length \<sigma> \<le> length \<sigma>'"
proof -
  assume "keeps \<sigma> \<sigma>'"
  then have "length (take (length \<sigma>) \<sigma>') = length \<sigma>" by (simp add: keeps_def)
  then show ?thesis by simp
qed

lemma keeps_nth: "keeps \<sigma> \<sigma>' \<Longrightarrow> a < length \<sigma> \<Longrightarrow> \<sigma>' ! a = \<sigma> ! a"
proof -
  assume k: "keeps \<sigma> \<sigma>'" and a: "a < length \<sigma>"
  from a have "take (length \<sigma>) \<sigma>' ! a = \<sigma>' ! a" by simp
  with k show ?thesis by (simp add: keeps_def)
qed

lemma keeps_trans: "keeps \<sigma> \<sigma>' \<Longrightarrow> keeps \<sigma>' \<sigma>'' \<Longrightarrow> keeps \<sigma> \<sigma>''"
proof -
  assume a: "keeps \<sigma> \<sigma>'" and b: "keeps \<sigma>' \<sigma>''"
  have "take (length \<sigma>) \<sigma>'' = take (length \<sigma>) (take (length \<sigma>') \<sigma>'')"
    using keeps_length [OF a] by (simp add: min_def)
  also have "\<dots> = \<sigma>" using a b by (simp add: keeps_def)
  finally show ?thesis by (simp add: keeps_def)
qed

lemma parseLoop_s_eq:
  "c < length \<sigma> \<Longrightarrow>
   parseLoop_s \<sigma> c ws i =
     (\<sigma>[c := (\<sigma> ! c)\<lparr>c_DesiredState := fst (parseLoop ws i (c_DesiredState (\<sigma> ! c)))\<rparr>],
      snd (parseLoop ws i (c_DesiredState (\<sigma> ! c))))"
proof (induction ws arbitrary: \<sigma> i)
  case Nil
  then show ?case by simp
next
  case (Cons w ws)
  show ?case
  proof (cases "length (Split w '': '') = 2")
    case False
    then show ?thesis by (simp add: Let_def)
  next
    case True
    let ?al = "\<lparr>a_Key = Split w '': '' ! 1, a_Alias = Split w '': '' ! 0\<rparr>"
    let ?\<sigma> = "\<sigma>[c := (\<sigma> ! c)\<lparr>c_DesiredState := (c_DesiredState (\<sigma> ! c))[i := ?al]\<rparr>]"
    have c: "c < length ?\<sigma>" using Cons.prems by simp
    have "parseLoop_s \<sigma> c (w # ws) i = parseLoop_s ?\<sigma> c ws (Suc i)"
      using True by (simp add: Let_def)
    also have "\<dots> = (?\<sigma>[c := (?\<sigma> ! c)\<lparr>c_DesiredState :=
                          fst (parseLoop ws (Suc i) (c_DesiredState (?\<sigma> ! c)))\<rparr>],
                     snd (parseLoop ws (Suc i) (c_DesiredState (?\<sigma> ! c))))"
      by (rule Cons.IH [OF c])
    finally show ?thesis
      using True Cons.prems by (simp add: Let_def)
  qed
qed

lemma ParseWith_s_eq:
  "c < length \<sigma> \<Longrightarrow>
   ParseWith_s \<sigma> c = (\<sigma>[c := fst (ParseWith (\<sigma> ! c))], snd (ParseWith (\<sigma> ! c)))"
  by (simp add: ParseWith_s_def ParseWith_def parseLoop_s_eq Let_def split: prod.splits option.splits)

lemma validateFn_s_eq:
  "validateFn_s t n j fns fs fn (\<sigma>, st) =
     (\<sigma> @ [fst (ParseWith fn)], validateFn t n j fns fs fn st)"
proof -
  have pw: "ParseWith_s (\<sigma> @ [fn]) (length \<sigma>) =
            (\<sigma> @ [fst (ParseWith fn)], snd (ParseWith fn))"
    using ParseWith_s_eq [of "length \<sigma>" "\<sigma> @ [fn]"] by simp
  show ?thesis
    unfolding validateFn_s_def validateFn_def Let_def
    by (simp only: fst_conv snd_conv pw nth_append_length)
qed

lemma validateGroup_s_eq:
  "list_all (\<lambda>a. a < length \<sigma>) g \<Longrightarrow>
   keeps \<sigma> (fst (validateGroup_s t n j fns fs g (\<sigma>, st))) \<and>
   snd (validateGroup_s t n j fns fs g (\<sigma>, st)) =
     validateGroup t n j fns fs (map (\<lambda>a. \<sigma> ! a) g) st"
proof (induction g arbitrary: \<sigma> st)
  case Nil
  then show ?case by (simp add: keeps_refl)
next
  case (Cons a g)
  let ?\<sigma> = "\<sigma> @ [fst (ParseWith (\<sigma> ! a))]"
  have k: "keeps \<sigma> ?\<sigma>" by (rule keeps_append)
  have in': "list_all (\<lambda>a. a < length ?\<sigma>) g"
    using Cons.prems by (auto simp: list_all_iff)
  have rd: "map (\<lambda>a. ?\<sigma> ! a) g = map (\<lambda>a. \<sigma> ! a) g"
    using Cons.prems by (auto simp: list_all_iff nth_append)
  have step: "validateGroup_s t n j fns fs (a # g) (\<sigma>, st) =
              validateGroup_s t n j fns fs g (?\<sigma>, validateFn t n j fns fs (\<sigma> ! a) st)"
    by (simp add: validateFn_s_eq)
  have "keeps ?\<sigma> (fst (validateGroup_s t n j fns fs g (?\<sigma>, validateFn t n j fns fs (\<sigma> ! a) st)))"
    and sn: "snd (validateGroup_s t n j fns fs g (?\<sigma>, validateFn t n j fns fs (\<sigma> ! a) st)) =
         validateGroup t n j fns fs (map (\<lambda>a. ?\<sigma> ! a) g) (validateFn t n j fns fs (\<sigma> ! a) st)"
    using Cons.IH [OF in', of "validateFn t n j fns fs (\<sigma> ! a) st"] by simp_all
  then have "keeps \<sigma> (fst (validateGroup_s t n j fns fs g (?\<sigma>, validateFn t n j fns fs (\<sigma> ! a) st)))"
    using keeps_trans [OF k] by blast
  then show ?case
    by (simp only: step sn rd list.map validateGroup.simps simp_thms)
qed

lemma loadStep_keeps:
  "keeps \<sigma> \<sigma>' \<Longrightarrow> stepInStore \<sigma> es \<Longrightarrow> loadStep \<sigma>' es = loadStep \<sigma> es \<and> stepInStore \<sigma>' es"
proof -
  assume k: "keeps \<sigma> \<sigma>'" and s: "stepInStore \<sigma> es"
  note n = keeps_nth [OF k] and l = keeps_length [OF k]
  have g: "map_option (map (\<lambda>a. \<sigma>' ! a)) (es_Group es) = map_option (map (\<lambda>a. \<sigma> ! a)) (es_Group es)"
    using s n by (cases "es_Group es") (auto simp: stepInStore_def list_all_iff)
  have f: "map_option (loadForEach \<sigma>') (es_ForEach es) = map_option (loadForEach \<sigma>) (es_ForEach es)"
    using s n by (cases "es_ForEach es") (auto simp: stepInStore_def loadForEach_def)
  have c: "\<sigma>' ! es_CallableFn es = \<sigma> ! es_CallableFn es"
    using s n by (simp add: stepInStore_def)
  have "stepInStore \<sigma>' es"
    using s l by (auto simp: stepInStore_def list_all_iff split: option.splits)
  then show ?thesis by (simp add: loadStep_def g f c)
qed

lemma validateStep_s_eq:
  assumes "stepInStore \<sigma> es"
  shows "keeps \<sigma> (fst (validateStep_s t n j fns es (\<sigma>, st))) \<and>
         snd (validateStep_s t n j fns es (\<sigma>, st)) = validateStep t n j fns (loadStep \<sigma> es) st"
proof -
  let ?s = "loadStep \<sigma> es"
  have grp: "IsGroup ?s \<Longrightarrow> list_all (\<lambda>a. a < length \<sigma>) (the (es_Group es)) \<and>
               the (e_Group ?s) = map (\<lambda>a. \<sigma> ! a) (the (es_Group es))"
    using assms by (cases "es_Group es") (simp_all add: IsGroup_def loadStep_def stepInStore_def)
  consider "IsFn ?s" | "\<not> IsFn ?s" "IsGroup ?s" | "\<not> IsFn ?s" "\<not> IsGroup ?s" "IsForEach ?s"
    | "\<not> IsFn ?s" "\<not> IsGroup ?s" "\<not> IsForEach ?s" by blast
  then show ?thesis
  proof cases
    case 1
    then show ?thesis
      by (simp add: validateStep_s_def validateStep_def Let_def validateFn_s_eq keeps_append)
  next
    case 2
    with grp have g: "list_all (\<lambda>a. a < length \<sigma>) (the (es_Group es))"
      and e: "the (e_Group ?s) = map (\<lambda>a. \<sigma> ! a) (the (es_Group es))" by simp_all
    show ?thesis
      using 2 validateGroup_s_eq [OF g, of t n j fns "fst st"]
      by (simp add: validateStep_s_def validateStep_def Let_def e)
  next
    case 3
    then show ?thesis
      by (simp add: validateStep_s_def validateStep_def Let_def validateFn_s_eq keeps_append)
  next
    case 4
    then show ?thesis
      by (simp add: validateStep_s_def validateStep_def Let_def keeps_refl)
  qed
qed

lemma validateStepsFrom_s_eq:
  "list_all (stepInStore \<sigma>) ess \<Longrightarrow>
   keeps \<sigma> (fst (validateStepsFrom_s t n j fns ess (\<sigma>, st))) \<and>
   snd (validateStepsFrom_s t n j fns ess (\<sigma>, st)) =
     validateStepsFrom t n j fns (map (loadStep \<sigma>) ess) st"
proof (induction ess arbitrary: \<sigma> st j)
  case Nil
  then show ?case by (simp add: keeps_refl)
next
  case (Cons es ess)
  obtain \<sigma>' st' where r: "validateStep_s t n j fns es (\<sigma>, st) = (\<sigma>', st')"
    by (cases "validateStep_s t n j fns es (\<sigma>, st)")
  from Cons.prems have es: "stepInStore \<sigma> es" and rest: "list_all (stepInStore \<sigma>) ess"
    by simp_all
  from validateStep_s_eq [OF es, of t n j fns st] r
  have k: "keeps \<sigma> \<sigma>'" and st': "st' = validateStep t n j fns (loadStep \<sigma> es) st"
    by simp_all
  have in': "list_all (stepInStore \<sigma>') ess"
    using rest loadStep_keeps [OF k] by (auto simp: list_all_iff)
  have ld: "map (loadStep \<sigma>') ess = map (loadStep \<sigma>) ess"
    using rest loadStep_keeps [OF k] by (auto simp: list_all_iff)
  show ?case
    using Cons.IH [OF in', of "Suc j" st'] keeps_trans [OF k]
    by (simp add: r ld st')
qed


lemma validateSteps_s_eq:
  "list_all (stepInStore \<sigma>) ess \<Longrightarrow>
   keeps \<sigma> (fst (validateSteps_s t n ess fs fns (\<sigma>, p))) \<and>
   snd (validateSteps_s t n ess fs fns (\<sigma>, p)) = validateSteps t n (map (loadStep \<sigma>) ess) fs fns p"
  using validateStepsFrom_s_eq [of \<sigma> ess t n 0 fns "(fs, p)"]
  by (simp add: validateSteps_s_def validateSteps_def)

lemma validateHandler_s_eq:
  assumes "list_all (stepInStore \<sigma>) (hs_Steps h)"
  shows "keeps \<sigma> (fst (validateHandler_s fns h (\<sigma>, p))) \<and>
         snd (validateHandler_s fns h (\<sigma>, p)) = validateHandler fns (loadHandler \<sigma> h) p"
proof (cases "hs_Steps h = []")
  case True
  then show ?thesis
    by (simp add: validateHandler_s_def validateHandler_def loadHandler_def Let_def keeps_refl)
next
  case False
  let ?p3 = "let inp = hs_Input h;
          p1 = (if i_Type inp = [] then add (HandlerMissingType (i_Resource inp)) p else p);
          p2 = (if i_Resource inp = [] then add (HandlerMissingResource (i_Resource inp)) p1
                else p1)
      in (if i_Type inp = InputTypeRequest \<and> i_Method inp = []
          then add (HandlerMissingMethod (i_Resource inp)) p2 else p2)"
  let ?name = "i_Method (hs_Input h) @ '' '' @ i_Resource (hs_Input h)"
  let ?r = "validateSteps_s executableTypeHandler ?name (hs_Steps h) Map.empty fns (\<sigma>, ?p3)"
  have k: "keeps \<sigma> (fst ?r)"
    and v: "snd ?r = validateSteps executableTypeHandler ?name (map (loadStep \<sigma>) (hs_Steps h))
                       Map.empty fns ?p3"
    using validateSteps_s_eq [OF assms, of executableTypeHandler ?name Map.empty fns ?p3]
    by simp_all
  have "stepInStore \<sigma> (last (hs_Steps h))"
    using assms False by (simp add: list_all_iff)
  then have "loadStep (fst ?r) (last (hs_Steps h)) = loadStep \<sigma> (last (hs_Steps h))"
    using loadStep_keeps [OF k] by blast
  then have l: "loadStep (fst ?r) (last (hs_Steps h)) = last (map (loadStep \<sigma>) (hs_Steps h))"
    using False by (simp add: last_map)
  have fstv: "fst (snd ?r) = fst (validateSteps executableTypeHandler ?name
                (map (loadStep \<sigma>) (hs_Steps h)) Map.empty fns ?p3)"
    and sndv: "snd (snd ?r) = snd (validateSteps executableTypeHandler ?name
                (map (loadStep \<sigma>) (hs_Steps h)) Map.empty fns ?p3)"
    using v by simp_all
  have a: "fst (validateHandler_s fns h (\<sigma>, p)) = fst ?r"
    using False by (simp add: validateHandler_s_def Let_def)
  have b: "snd (validateHandler_s fns h (\<sigma>, p)) = validateHandler fns (loadHandler \<sigma> h) p"
    unfolding validateHandler_s_def validateHandler_def loadHandler_def Let_def
    by (simp only: fst_conv snd_conv Handler.select_convs length_map length_0_conv False
          if_False l [unfolded Let_def] fstv [unfolded Let_def] sndv [unfolded Let_def]
          if_distrib [of snd])
  from a b k show ?thesis by simp
qed

lemma loadHandler_keeps:
  assumes "keeps \<sigma> \<sigma>'" "list_all (stepInStore \<sigma>) (hs_Steps h)"
  shows "loadHandler \<sigma>' h = loadHandler \<sigma> h \<and> list_all (stepInStore \<sigma>') (hs_Steps h)"
  using assms(2) loadStep_keeps [OF assms(1)]
  by (auto simp: loadHandler_def list_all_iff)

lemma loadSchedule_keeps:
  assumes "keeps \<sigma> \<sigma>'" "list_all (stepInStore \<sigma>) (ss_Steps s)"
  shows "loadSchedule \<sigma>' s = loadSchedule \<sigma> s \<and> list_all (stepInStore \<sigma>') (ss_Steps s)"
  using assms(2) loadStep_keeps [OF assms(1)]
  by (auto simp: loadSchedule_def list_all_iff)

lemma validateHandlers_s_eq:
  "list_all (\<lambda>h. list_all (stepInStore \<sigma>) (hs_Steps h)) hs \<Longrightarrow>
   keeps \<sigma> (fst (validateHandlers_s fns hs (\<sigma>, p))) \<and>
   snd (validateHandlers_s fns hs (\<sigma>, p)) = validateHandlers fns (map (loadHandler \<sigma>) hs) p"
proof (induction hs arbitrary: \<sigma> p)
  case Nil
  then show ?case by (simp add: keeps_refl)
next
  case (Cons h hs)
  obtain \<sigma>' p' where r: "validateHandler_s fns h (\<sigma>, p) = (\<sigma>', p')"
    by (cases "validateHandler_s fns h (\<sigma>, p)")
  from Cons.prems have h: "list_all (stepInStore \<sigma>) (hs_Steps h)"
    and rest: "list_all (\<lambda>h. list_all (stepInStore \<sigma>) (hs_Steps h)) hs" by simp_all
  from validateHandler_s_eq [OF h, of fns p] r
  have k: "keeps \<sigma> \<sigma>'" and p': "p' = validateHandler fns (loadHandler \<sigma> h) p" by simp_all
  have in': "list_all (\<lambda>h. list_all (stepInStore \<sigma>') (hs_Steps h)) hs"
    using rest loadHandler_keeps [OF k] by (auto simp: list_all_iff)
  have ld: "map (loadHandler \<sigma>') hs = map (loadHandler \<sigma>) hs"
    using rest loadHandler_keeps [OF k] by (auto simp: list_all_iff)
  show ?case
    using Cons.IH [OF in', of p'] keeps_trans [OF k]
    by (simp add: r ld p')
qed

lemma validateSchedule_s_eq:
  assumes "list_all (stepInStore \<sigma>) (ss_Steps s)"
  shows "keeps \<sigma> (fst (validateSchedule_s fns i s (\<sigma>, p))) \<and>
         snd (validateSchedule_s fns i s (\<sigma>, p)) = validateSchedule fns i (loadSchedule \<sigma> s) p"
proof (cases "ss_Name s = [] \<or> ss_Steps s = []")
  case True
  then show ?thesis
    by (auto simp: validateSchedule_s_def validateSchedule_def loadSchedule_def Let_def keeps_refl)
next
  case False
  let ?p1 = "if ev_Seconds (ss_Every s) = 0 \<and> ev_Minutes (ss_Every s) = 0 \<and>
                ev_Hours (ss_Every s) = 0 \<and> ev_Days (ss_Every s) = 0
             then add (ScheduleNoEvery (ss_Name s)) p else p"
  let ?r = "validateSteps_s executableTypeSchedule (ss_Name s) (ss_Steps s)
              (primeState (ss_State s) Map.empty) fns (\<sigma>, ?p1)"
  have k: "keeps \<sigma> (fst ?r)"
    and v: "snd ?r = validateSteps executableTypeSchedule (ss_Name s)
                       (map (loadStep \<sigma>) (ss_Steps s)) (primeState (ss_State s) Map.empty) fns ?p1"
    using validateSteps_s_eq [OF assms, of executableTypeSchedule "ss_Name s"
            "primeState (ss_State s) Map.empty" fns ?p1]
    by simp_all
  have a: "fst (validateSchedule_s fns i s (\<sigma>, p)) = fst ?r"
    using False by (simp add: validateSchedule_s_def Let_def)
  have b: "snd (validateSchedule_s fns i s (\<sigma>, p)) = validateSchedule fns i (loadSchedule \<sigma> s) p"
    unfolding validateSchedule_s_def validateSchedule_def loadSchedule_def Let_def
    using False
    by (simp only: fst_conv snd_conv Schedule.select_convs length_map length_0_conv
          de_Morgan_disj simp_thms if_False v)
  from a b k show ?thesis by simp
qed

lemma validateSchedules_s_eq:
  "list_all (\<lambda>s. list_all (stepInStore \<sigma>) (ss_Steps s)) ss \<Longrightarrow>
   keeps \<sigma> (fst (validateSchedules_s fns i ss (\<sigma>, p))) \<and>
   snd (validateSchedules_s fns i ss (\<sigma>, p)) =
     validateSchedules fns i (map (loadSchedule \<sigma>) ss) p"
proof (induction ss arbitrary: \<sigma> p i)
  case Nil
  then show ?case by (simp add: keeps_refl)
next
  case (Cons s ss)
  obtain \<sigma>' p' where r: "validateSchedule_s fns i s (\<sigma>, p) = (\<sigma>', p')"
    by (cases "validateSchedule_s fns i s (\<sigma>, p)")
  from Cons.prems have s: "list_all (stepInStore \<sigma>) (ss_Steps s)"
    and rest: "list_all (\<lambda>s. list_all (stepInStore \<sigma>) (ss_Steps s)) ss" by simp_all
  from validateSchedule_s_eq [OF s, of fns i p] r
  have k: "keeps \<sigma> \<sigma>'" and p': "p' = validateSchedule fns i (loadSchedule \<sigma> s) p" by simp_all
  have in': "list_all (\<lambda>s. list_all (stepInStore \<sigma>') (ss_Steps s)) ss"
    using rest loadSchedule_keeps [OF k] by (auto simp: list_all_iff)
  have ld: "map (loadSchedule \<sigma>') ss = map (loadSchedule \<sigma>) ss"
    using rest loadSchedule_keeps [OF k] by (auto simp: list_all_iff)
  show ?case
    using Cons.IH [OF in', of "Suc i" p'] keeps_trans [OF k]
    by (simp add: r ld p')
qed

lemma loadDirective_keeps:
  assumes "keeps \<sigma> \<sigma>'" "directiveInStore \<sigma> d"
  shows "loadDirective \<sigma>' d = loadDirective \<sigma> d \<and> directiveInStore \<sigma>' d"
proof -
  have h: "map (loadHandler \<sigma>') (ds_Handlers d) = map (loadHandler \<sigma>) (ds_Handlers d)"
    and hi: "list_all (\<lambda>h. list_all (stepInStore \<sigma>') (hs_Steps h)) (ds_Handlers d)"
    using assms(2) loadHandler_keeps [OF assms(1)]
    by (auto simp: directiveInStore_def list_all_iff)
  have s: "map (loadSchedule \<sigma>') (ds_Schedules d) = map (loadSchedule \<sigma>) (ds_Schedules d)"
    and si: "list_all (\<lambda>s. list_all (stepInStore \<sigma>') (ss_Steps s)) (ds_Schedules d)"
    using assms(2) loadSchedule_keeps [OF assms(1)]
    by (auto simp: directiveInStore_def list_all_iff)
  show ?thesis
    by (simp add: loadDirective_def directiveInStore_def h s hi si)
qed

lemma collect_s_eq:
  assumes "directiveInStore \<sigma> d"
  shows "keeps \<sigma> (fst (collect_s IsValid d \<sigma>)) \<and>
         snd (collect_s IsValid d \<sigma>) = collect IsValid (loadDirective \<sigma> d)"
proof -
  let ?p0 = "validateHeader IsValid (loadDirective \<sigma> d) []"
  let ?r = "validateRunnables 0 (ds_Runnables d) (Map.empty, ?p0)"
  let ?h = "validateHandlers_s (fst ?r) (ds_Handlers d) (\<sigma>, snd ?r)"
  from assms have hi: "list_all (\<lambda>h. list_all (stepInStore \<sigma>) (hs_Steps h)) (ds_Handlers d)"
    and si: "list_all (\<lambda>s. list_all (stepInStore \<sigma>) (ss_Steps s)) (ds_Schedules d)"
    by (simp_all add: directiveInStore_def)
  have kh: "keeps \<sigma> (fst ?h)"
    and ph: "snd ?h = validateHandlers (fst ?r) (map (loadHandler \<sigma>) (ds_Handlers d)) (snd ?r)"
    using validateHandlers_s_eq [OF hi, of "fst ?r" "snd ?r"] by simp_all
  have si': "list_all (\<lambda>s. list_all (stepInStore (fst ?h)) (ss_Steps s)) (ds_Schedules d)"
    and ls: "map (loadSchedule (fst ?h)) (ds_Schedules d) = map (loadSchedule \<sigma>) (ds_Schedules d)"
    using si loadSchedule_keeps [OF kh] by (auto simp: list_all_iff)
  have ks: "keeps (fst ?h) (fst (validateSchedules_s (fst ?r) 0 (ds_Schedules d) (fst ?h, snd ?h)))"
    and ps: "snd (validateSchedules_s (fst ?r) 0 (ds_Schedules d) (fst ?h, snd ?h)) =
             validateSchedules (fst ?r) 0 (map (loadSchedule (fst ?h)) (ds_Schedules d)) (snd ?h)"
    using validateSchedules_s_eq [OF si', of "fst ?r" 0 "snd ?h"] by simp_all
  have c: "collect_s IsValid d \<sigma> = validateSchedules_s (fst ?r) 0 (ds_Schedules d) (fst ?h, snd ?h)"
    by (simp add: collect_s_def Let_def)
  have "snd (collect_s IsValid d \<sigma>) =
        validateSchedules (fst ?r) 0 (map (loadSchedule (fst ?h)) (ds_Schedules d)) (snd ?h)"
    by (simp only: c ps)
  also have "\<dots> = validateSchedules (fst ?r) 0 (map (loadSchedule \<sigma>) (ds_Schedules d))
        (validateHandlers (fst ?r) (map (loadHandler \<sigma>) (ds_Handlers d)) (snd ?r))"
    by (simp only: ls ph)
  also have "\<dots> = collect IsValid (loadDirective \<sigma> d)"
    by (simp add: collect_def Let_def loadDirective_def)
  finally have "snd (collect_s IsValid d \<sigma>) = collect IsValid (loadDirective \<sigma> d)" .
  moreover have "keeps \<sigma> (fst (collect_s IsValid d \<sigma>))"
    unfolding c using keeps_trans [OF kh ks] .
  ultimately show ?thesis by simp
qed

text \<open>
  Claim C9 as amended. In the store model every CallableFn of the Directive is a
  cell, and ParseWith writes the cell of its receiver. When Validate returns,
  every cell that was there before is where and what it was: the writes of
  ParseWith went to the cells of the parameters of validateFn, which the run
  added. So the Directive read from the store after the run is the Directive read
  before it, every field and every cached list of bindings; the error returned is
  that of Validate on this value; and a second run, on the store that the first
  left, returns the same when it enumerates the maps in the same order. A run
  that enumerates the maps of the same Directive in another order agrees on
  success or failure and reports the same problems in the same order, except
  that the per-code defects of the code map of one call may come in the other
  order; so the two reports hold the same problems the same number of times.
\<close>

theorem validate_frame:
  "directiveInStore \<sigma> d \<longrightarrow>
     keeps \<sigma> (fst (Validate_s IsValid d \<sigma>))
   \<and> loadDirective (fst (Validate_s IsValid d \<sigma>)) d = loadDirective \<sigma> d
   \<and> snd (Validate_s IsValid d \<sigma>) = snd (Validate IsValid (loadDirective \<sigma> d))
   \<and> snd (Validate_s IsValid d (fst (Validate_s IsValid d \<sigma>))) = snd (Validate_s IsValid d \<sigma>)
   \<and> (sameDirective (loadDirective \<sigma> d) d' \<longrightarrow>
        sameProblems (collect IsValid (loadDirective \<sigma> d)) (collect IsValid d') \<and>
        (snd (Validate IsValid (loadDirective \<sigma> d)) = None \<longleftrightarrow>
         snd (Validate IsValid d') = None) \<and>
        mset (collect IsValid (loadDirective \<sigma> d)) = mset (collect IsValid d') \<and>
        length (collect IsValid (loadDirective \<sigma> d)) = length (collect IsValid d') \<and>
        filter (\<lambda>p. \<not> isCodeDefect p) (collect IsValid (loadDirective \<sigma> d)) =
        filter (\<lambda>p. \<not> isCodeDefect p) (collect IsValid d'))"
proof
  assume wf: "directiveInStore \<sigma> d"
  let ?\<sigma> = "fst (Validate_s IsValid d \<sigma>)"
  have k: "keeps \<sigma> ?\<sigma>"
    and r: "snd (Validate_s IsValid d \<sigma>) = snd (Validate IsValid (loadDirective \<sigma> d))"
    using collect_s_eq [OF wf, of IsValid] by (simp_all add: Validate_s_def Validate_def)
  have l: "loadDirective ?\<sigma> d = loadDirective \<sigma> d" and wf': "directiveInStore ?\<sigma> d"
    using loadDirective_keeps [OF k wf] by simp_all
  have "snd (Validate_s IsValid d ?\<sigma>) = snd (Validate IsValid (loadDirective ?\<sigma> d))"
    using collect_s_eq [OF wf', of IsValid] by (simp add: Validate_s_def Validate_def)
  with l r have again: "snd (Validate_s IsValid d ?\<sigma>) = snd (Validate_s IsValid d \<sigma>)"
    by simp
  have b: "sameDirective (loadDirective \<sigma> d) d' \<longrightarrow>
        sameProblems (collect IsValid (loadDirective \<sigma> d)) (collect IsValid d') \<and>
        (snd (Validate IsValid (loadDirective \<sigma> d)) = None \<longleftrightarrow>
         snd (Validate IsValid d') = None) \<and>
        mset (collect IsValid (loadDirective \<sigma> d)) = mset (collect IsValid d') \<and>
        length (collect IsValid (loadDirective \<sigma> d)) = length (collect IsValid d') \<and>
        filter (\<lambda>p. \<not> isCodeDefect p) (collect IsValid (loadDirective \<sigma> d)) =
        filter (\<lambda>p. \<not> isCodeDefect p) (collect IsValid d')"
  proof
    let ?d = "loadDirective \<sigma> d"
    assume "sameDirective ?d d'"
    then have sp: "sameProblems (collect IsValid ?d) (collect IsValid d')"
      by (rule sameDirective_collect)
    then have m: "mset (collect IsValid ?d) = mset (collect IsValid d')"
      and f: "filter (\<lambda>p. \<not> isCodeDefect p) (collect IsValid ?d) =
              filter (\<lambda>p. \<not> isCodeDefect p) (collect IsValid d')"
      using sameProblems_sound by blast+
    from m have len: "length (collect IsValid ?d) = length (collect IsValid d')"
      by (rule mset_eq_length)
    then have "collect IsValid ?d = [] \<longleftrightarrow> collect IsValid d' = []"
      by (cases "collect IsValid ?d"; cases "collect IsValid d'"; simp)
    then have "snd (Validate IsValid ?d) = None \<longleftrightarrow> snd (Validate IsValid d') = None"
      by (simp add: Validate_def render_eq)
    with sp m len f show "sameProblems (collect IsValid ?d) (collect IsValid d') \<and>
        (snd (Validate IsValid ?d) = None \<longleftrightarrow> snd (Validate IsValid d') = None) \<and>
        mset (collect IsValid ?d) = mset (collect IsValid d') \<and>
        length (collect IsValid ?d) = length (collect IsValid d') \<and>
        filter (\<lambda>p. \<not> isCodeDefect p) (collect IsValid ?d) =
        filter (\<lambda>p. \<not> isCodeDefect p) (collect IsValid d')"
      by simp
  qed
  from k l r again b show "keeps \<sigma> ?\<sigma>
   \<and> loadDirective ?\<sigma> d = loadDirective \<sigma> d
   \<and> snd (Validate_s IsValid d \<sigma>) = snd (Validate IsValid (loadDirective \<sigma> d))
   \<and> snd (Validate_s IsValid d ?\<sigma>) = snd (Validate_s IsValid d \<sigma>)
   \<and> (sameDirective (loadDirective \<sigma> d) d' \<longrightarrow>
        sameProblems (collect IsValid (loadDirective \<sigma> d)) (collect IsValid d') \<and>
        (snd (Validate IsValid (loadDirective \<sigma> d)) = None \<longleftrightarrow>
         snd (Validate IsValid d') = None) \<and>
        mset (collect IsValid (loadDirective \<sigma> d)) = mset (collect IsValid d') \<and>
        length (collect IsValid (loadDirective \<sigma> d)) = length (collect IsValid d') \<and>
        filter (\<lambda>p. \<not> isCodeDefect p) (collect IsValid (loadDirective \<sigma> d)) =
        filter (\<lambda>p. \<not> isCodeDefect p) (collect IsValid d'))"
    by (intro conjI)
qed

theorem validate_frame_witness:
  "directiveInStore [storeCall [(404, ''retry''), (500, ''abort'')]] storeDoc
   \<and> fst (Validate_s acceptAll storeDoc [storeCall [(404, ''retry''), (500, ''abort'')]]) =
       [storeCall [(404, ''retry''), (500, ''abort'')],
        (storeCall [(404, ''retry''), (500, ''abort'')])\<lparr>c_DesiredState := [\<lparr>a_Key = ''fetch'', a_Alias = ''user''\<rparr>]\<rparr>]
   \<and> keeps [storeCall [(404, ''retry''), (500, ''abort'')]] (fst (Validate_s acceptAll storeDoc [storeCall [(404, ''retry''), (500, ''abort'')]]))
   \<and> loadDirective (fst (Validate_s acceptAll storeDoc [storeCall [(404, ''retry''), (500, ''abort'')]])) storeDoc =
       loadDirective [storeCall [(404, ''retry''), (500, ''abort'')]] storeDoc
   \<and> snd (Validate_s acceptAll storeDoc (fst (Validate_s acceptAll storeDoc [storeCall [(404, ''retry''), (500, ''abort'')]]))) =
       snd (Validate_s acceptAll storeDoc [storeCall [(404, ''retry''), (500, ''abort'')]])
   \<and> sameDirective (loadDirective [storeCall [(404, ''retry''), (500, ''abort'')]] storeDoc) (loadDirective [storeCall [(500, ''abort''), (404, ''retry'')]] storeDoc)
   \<and> sameProblems (collect acceptAll (loadDirective [storeCall [(404, ''retry''), (500, ''abort'')]] storeDoc))
                   (collect acceptAll (loadDirective [storeCall [(500, ''abort''), (404, ''retry'')]] storeDoc))
   \<and> length (collect acceptAll (loadDirective [storeCall [(404, ''retry''), (500, ''abort'')]] storeDoc)) =
       length (collect acceptAll (loadDirective [storeCall [(500, ''abort''), (404, ''retry'')]] storeDoc))"
proof -
  have wf: "directiveInStore [storeCall [(404, ''retry''), (500, ''abort'')]] storeDoc"
    by (simp add: directiveInStore_def storeDoc_def stepInStore_def)
  have s: "sameDirective (loadDirective [storeCall [(404, ''retry''), (500, ''abort'')]] storeDoc)
                         (loadDirective [storeCall [(500, ''abort''), (404, ''retry'')]] storeDoc)"
    by (simp add: sameDirective_def loadDirective_def loadHandler_def loadStep_def storeDoc_def
          storeCall_def sameHandler_def sameStep_def sameFn_def sameOnErr_def)
  have st: "fst (Validate_s acceptAll storeDoc [storeCall [(404, ''retry''), (500, ''abort'')]]) =
       [storeCall [(404, ''retry''), (500, ''abort'')],
        (storeCall [(404, ''retry''), (500, ''abort'')])\<lparr>c_DesiredState := [\<lparr>a_Key = ''fetch'', a_Alias = ''user''\<rparr>]\<rparr>]"
    by code_simp
  from validate_frame [of "[storeCall [(404, ''retry''), (500, ''abort'')]]" storeDoc acceptAll
         "loadDirective [storeCall [(500, ''abort''), (404, ''retry'')]] storeDoc"] wf s st
  show ?thesis by simp
qed

end
